theory Spec2Isabelle
  imports Complex_Main "HOL-Library.Word"
begin

unbundle bit_operations_syntax

section \<open>The amplitude store (quantum\_state.h)\<close>

text \<open>
  Conventions of the embedding.
  \<^item> A \<open>double\<close> is read as the real number it stands for, and \<open>Complex\<close>
    (\<open>std::complex<double>\<close>) as a complex number; a \<open>double\<close> constant of the source is the
    value of that \<open>double\<close>, not the number its decimal literal approximates, and a
    \<open>double\<close> that the C library computes (\<open>std::cos\<close>, \<open>std::sin\<close>) is a parameter. The
    rounding of sums and products is not modelled. Gates that only copy amplitudes do no
    arithmetic.
  \<^item> An exception is an \<open>error\<close>; \<open>Thrown e\<close> is the failure of a call that throws it.
    \<open>Fault\<close> is undefined behaviour: \<open>operator[]\<close> of \<open>std::vector\<close> outside the
    vector, or a shift by the width of the type or more.
  \<^item> A call that returns a value returns \<open>failure + value\<close>. A call that mutates the store
    returns an outcome, \<open>None\<close> when it returns normally and \<open>Some f\<close> when it fails,
    together with the store as the call left it.
  \<^item> \<open>int\<close> arguments are \<open>int\<close> (the values of the program are those from \<open>INT_MIN\<close> to
    \<open>INT_MAX\<close>); the fields \<open>num_qubits\<close> and \<open>state_size\<close> of a
    constructed store are positive and are kept as \<open>nat\<close>, as are loop counters, which run
    upwards from 0. \<open>1 << n\<close> on a 32-bit \<open>int\<close> and the conversions of
    \<open>uint64_t\<close> to \<open>int\<close> are written with \<open>signed_take_bit 31\<close>; \<open>uint64_t\<close> is
    \<open>64 word\<close>. Sums and differences of qubit positions (\<open>start + count\<close>) are taken in
    32 bits with wrap-around (\<open>int_add\<close>, \<open>int_sub\<close> below).
\<close>

text \<open>
  \<open>x + y\<close> and \<open>x - y\<close> on \<open>int\<close>, as the compiled program computes them: the 32-bit
  two's complement result, which wraps around where the mathematical result does not fit.
\<close>

definition int_add :: "int \<Rightarrow> int \<Rightarrow> int" where
  "int_add x y = signed_take_bit 31 (x + y)"

definition int_sub :: "int \<Rightarrow> int \<Rightarrow> int" where
  "int_sub x y = signed_take_bit 31 (x - y)"

datatype error = InvalidArgument | OutOfRange | LengthError

datatype failure = Thrown error | Fault

type_synonym outcome = "failure option"

record QuantumState =
  amplitudes :: "complex list"
  num_qubits :: nat
  state_size :: nat

text \<open>
  The constructor. \<open>state_size = 1 << n\<close> is an \<open>int\<close>: for \<open>n = 31\<close> it is
  \<open>INT_MIN\<close>, and \<open>resize\<close> of a negative size (a size beyond \<open>max_size\<close> once
  converted) throws \<open>std::length_error\<close>; a shift by 32 or more is undefined.
\<close>

definition QuantumState_new :: "int \<Rightarrow> failure + QuantumState" where
  "QuantumState_new n =
     (if n \<le> 0 then Inl (Thrown InvalidArgument)
      else if 32 \<le> n then Inl Fault
      else let size = signed_take_bit 31 (push_bit (nat n) (1::int)) in
        if size < 0 then Inl (Thrown LengthError)
        else Inr \<lparr>amplitudes = (replicate (nat size) 0)[0 := 1],
                  num_qubits = nat n, state_size = nat size\<rparr>)"

definition getNumQubits :: "QuantumState \<Rightarrow> int" where
  "getNumQubits st = int (num_qubits st)"

definition getStateSize :: "QuantumState \<Rightarrow> int" where
  "getStateSize st = int (state_size st)"

text \<open>Unchecked element access of a vector: \<open>None\<close> outside the vector.\<close>

definition vec_get :: "'a list \<Rightarrow> int \<Rightarrow> 'a option" where
  "vec_get xs j = (if 0 \<le> j \<and> nat j < length xs then Some (xs ! nat j) else None)"

definition vec_set :: "'a list \<Rightarrow> int \<Rightarrow> 'a \<Rightarrow> 'a list option" where
  "vec_set xs j v = (if 0 \<le> j \<and> nat j < length xs then Some (xs[nat j := v]) else None)"

definition getAmplitude :: "QuantumState \<Rightarrow> int \<Rightarrow> failure + complex" where
  "getAmplitude st index =
     (if index < 0 \<or> index \<ge> int (state_size st) then Inl (Thrown OutOfRange)
      else case vec_get (amplitudes st) index of
             None \<Rightarrow> Inl Fault
           | Some a \<Rightarrow> Inr a)"

definition setAmplitude :: "int \<Rightarrow> complex \<Rightarrow> QuantumState \<Rightarrow> outcome \<times> QuantumState" where
  "setAmplitude index amplitude st =
     (if index < 0 \<or> index \<ge> int (state_size st) then (Some (Thrown OutOfRange), st)
      else case vec_set (amplitudes st) index amplitude of
             None \<Rightarrow> (Some Fault, st)
           | Some amps \<Rightarrow> (None, st\<lparr>amplitudes := amps\<rparr>))"

text \<open>\<open>std::norm\<close> is the squared magnitude, the sum of the squares of the two parts.\<close>

definition getProbability :: "QuantumState \<Rightarrow> int \<Rightarrow> failure + real" where
  "getProbability st index =
     (if index < 0 \<or> index \<ge> int (state_size st) then Inl (Thrown OutOfRange)
      else case vec_get (amplitudes st) index of
             None \<Rightarrow> Inl Fault
           | Some a \<Rightarrow> Inr ((Re a)\<^sup>2 + (Im a)\<^sup>2))"

text \<open>The accumulation loop of \<open>isNormalized\<close>: the total probability of the store.\<close>

fun total_prob_loop :: "QuantumState \<Rightarrow> nat list \<Rightarrow> real \<Rightarrow> failure + real" where
  "total_prob_loop st [] total_prob = Inr total_prob"
| "total_prob_loop st (i # is) total_prob =
     (case getProbability st (int i) of
        Inl e \<Rightarrow> Inl e
      | Inr p \<Rightarrow> total_prob_loop st is (total_prob + p))"

definition total_probability :: "QuantumState \<Rightarrow> failure + real" where
  "total_probability st = total_prob_loop st [0..<state_size st] 0"

text \<open>The tolerance \<open>1e-10\<close> of \<open>isNormalized\<close> is the \<open>double\<close> \<open>7737125245533627 / 2 ^ 86\<close>.\<close>

definition isNormalized :: "QuantumState \<Rightarrow> failure + bool" where
  "isNormalized st =
     (case total_probability st of
        Inl e \<Rightarrow> Inl e
      | Inr total_prob \<Rightarrow> Inr (\<bar>total_prob - 1\<bar> < 7737125245533627 / 2 ^ 86))"

text \<open>
  The invariant the constructor establishes and every method keeps: between 1 and 30
  qubits, \<open>2 ^ n\<close> amplitudes.
\<close>

definition wf_state :: "QuantumState \<Rightarrow> bool" where
  "wf_state st \<longleftrightarrow>
     0 < num_qubits st \<and> num_qubits st \<le> 30 \<and> state_size st = 2 ^ num_qubits st \<and>
     length (amplitudes st) = state_size st"

text \<open>The store of \<open>n\<close> qubits whose only non-zero amplitude is 1 at basis index \<open>k\<close>.\<close>

definition basis_state :: "nat \<Rightarrow> nat \<Rightarrow> QuantumState" where
  "basis_state n k =
     \<lparr>amplitudes = (replicate (2 ^ n) 0)[k := 1], num_qubits = n, state_size = 2 ^ n\<rparr>"

section \<open>Gate primitives (quantum\_gates.h)\<close>

text \<open>
  A gate object with its fields. A \<open>PhaseShiftGate\<close> has three: the target, the angle and
  the phase factor that its constructor computed.
\<close>

datatype gate =
    HadamardGate int
  | CNOTGate int int
  | SWAPGate int int
  | ToffoliGate int int int
  | PhaseShiftGate int real complex
  | XGate int
  | ControlledModMultGate int int int "64 word" "64 word"

subsection \<open>Constructors\<close>

definition new_HadamardGate :: "int \<Rightarrow> error + gate" where
  "new_HadamardGate target =
     (if target < 0 then Inl InvalidArgument else Inr (HadamardGate target))"

definition new_CNOTGate :: "int \<Rightarrow> int \<Rightarrow> error + gate" where
  "new_CNOTGate control target =
     (if control < 0 \<or> target < 0 then Inl InvalidArgument
      else if control = target then Inl InvalidArgument
      else Inr (CNOTGate control target))"

definition new_SWAPGate :: "int \<Rightarrow> int \<Rightarrow> error + gate" where
  "new_SWAPGate q1 q2 =
     (if q1 < 0 \<or> q2 < 0 then Inl InvalidArgument
      else if q1 = q2 then Inl InvalidArgument
      else Inr (SWAPGate q1 q2))"

definition new_ToffoliGate :: "int \<Rightarrow> int \<Rightarrow> int \<Rightarrow> error + gate" where
  "new_ToffoliGate control1 control2 target =
     (if control1 < 0 \<or> control2 < 0 \<or> target < 0 then Inl InvalidArgument
      else if control1 = target \<or> control2 = target then Inl InvalidArgument
      else if control1 = control2 then Inl InvalidArgument
      else Inr (ToffoliGate control1 control2 target))"

text \<open>
  The constructor of \<open>PhaseShiftGate\<close> stores \<open>Complex(std::cos(angle), std::sin(angle))\<close>.
  \<open>std::cos\<close> and \<open>std::sin\<close> belong to the C library, which is not part of the
  repository: the two \<open>double\<close> values that they return for the angle are the parameters
  \<open>cos_angle\<close> and \<open>sin_angle\<close>.
\<close>

definition new_PhaseShiftGate :: "int \<Rightarrow> real \<Rightarrow> real \<Rightarrow> real \<Rightarrow> error + gate" where
  "new_PhaseShiftGate target angle cos_angle sin_angle =
     (if target < 0 then Inl InvalidArgument
      else Inr (PhaseShiftGate target angle (Complex cos_angle sin_angle)))"

definition new_XGate :: "int \<Rightarrow> error + gate" where
  "new_XGate target =
     (if target < 0 then Inl InvalidArgument else Inr (XGate target))"

definition new_ControlledModMultGate ::
  "int \<Rightarrow> int \<Rightarrow> int \<Rightarrow> 64 word \<Rightarrow> 64 word \<Rightarrow> error + gate" where
  "new_ControlledModMultGate control target_start target_count mult md =
     (if control < 0 \<or> target_start < 0 \<or> target_count \<le> 0 then Inl InvalidArgument
      else if mult = 0 \<or> md = 0 then Inl InvalidArgument
      else if control \<ge> target_start \<and> control < int_add target_start target_count
        then Inl InvalidArgument
      else Inr (ControlledModMultGate control target_start target_count mult md))"

subsection \<open>The loops of \<open>apply\<close>\<close>

text \<open>A \<open>for\<close> loop over the indices whose body may fault.\<close>

fun for_loop :: "(nat \<Rightarrow> 'a \<Rightarrow> 'a option) \<Rightarrow> nat list \<Rightarrow> 'a \<Rightarrow> 'a option" where
  "for_loop body [] s = Some s"
| "for_loop body (i # is) s =
     (case body i s of None \<Rightarrow> None | Some s' \<Rightarrow> for_loop body is s')"

text \<open>
  The last loop of every \<open>apply\<close>: \<open>state.setAmplitude(i, new_amplitudes[i])\<close> for every
  index.
\<close>

fun commit :: "complex list \<Rightarrow> nat list \<Rightarrow> QuantumState \<Rightarrow> outcome \<times> QuantumState" where
  "commit new_amplitudes [] st = (None, st)"
| "commit new_amplitudes (i # is) st =
     (case vec_get new_amplitudes (int i) of
        None \<Rightarrow> (Some Fault, st)
      | Some a \<Rightarrow>
          (case setAmplitude (int i) a st of
             (None, st') \<Rightarrow> commit new_amplitudes is st'
           | r \<Rightarrow> r))"

text \<open>
  The body shared by \<open>HadamardGate\<close> and \<open>XGate\<close>: at an index \<open>i\<close> whose \<open>mask\<close> bit is 0,
  with \<open>j = i ^ mask\<close>, read \<open>old[i]\<close> and \<open>old[j]\<close> and write \<open>new[i]\<close> and \<open>new[j]\<close>.
\<close>

definition pair_step ::
  "(complex \<Rightarrow> complex \<Rightarrow> complex) \<Rightarrow> (complex \<Rightarrow> complex \<Rightarrow> complex) \<Rightarrow>
   nat \<Rightarrow> complex list \<Rightarrow> nat \<Rightarrow> complex list \<Rightarrow> complex list option" where
  "pair_step f0 f1 bmask old_amplitudes i new_amplitudes =
     (let j = i XOR bmask in
      if i AND bmask = 0 then
        (case vec_get old_amplitudes (int i) of
           None \<Rightarrow> None
         | Some amp0 \<Rightarrow>
             (case vec_get old_amplitudes (int j) of
                None \<Rightarrow> None
              | Some amp1 \<Rightarrow>
                  (case vec_set new_amplitudes (int i) (f0 amp0 amp1) of
                     None \<Rightarrow> None
                   | Some new1 \<Rightarrow> vec_set new1 (int j) (f1 amp0 amp1))))
      else Some new_amplitudes)"

text \<open>
  The body shared by \<open>CNOTGate\<close>, \<open>ToffoliGate\<close> and \<open>ControlledModMultGate\<close>: at an index
  \<open>i\<close> that satisfies the control condition, \<open>new[j] = old[i]\<close> for the destination
  \<open>j\<close> of \<open>i\<close>.
\<close>

definition scatter_step ::
  "(nat \<Rightarrow> bool) \<Rightarrow> (nat \<Rightarrow> int) \<Rightarrow> complex list \<Rightarrow> nat \<Rightarrow> complex list \<Rightarrow>
   complex list option" where
  "scatter_step cond dest old_amplitudes i new_amplitudes =
     (if cond i then
        (case vec_get old_amplitudes (int i) of
           None \<Rightarrow> None
         | Some a \<Rightarrow> vec_set new_amplitudes (dest i) a)
      else Some new_amplitudes)"

text \<open>The body of \<open>SWAPGate\<close>: \<open>new[i] = old[j]\<close> where the two bits of \<open>i\<close> differ.\<close>

definition swap_step ::
  "nat \<Rightarrow> nat \<Rightarrow> complex list \<Rightarrow> nat \<Rightarrow> complex list \<Rightarrow> complex list option" where
  "swap_step mask1 mask2 old_amplitudes i new_amplitudes =
     (let bit1 = (i AND mask1 \<noteq> 0); bit2 = (i AND mask2 \<noteq> 0) in
      if bit1 \<noteq> bit2 then
        (let j = (i XOR mask1) XOR mask2 in
         case vec_get old_amplitudes (int j) of
           None \<Rightarrow> None
         | Some a \<Rightarrow> vec_set new_amplitudes (int i) a)
      else Some new_amplitudes)"

text \<open>
  The loop of \<open>PhaseShiftGate\<close> works on the store itself through \<open>getAmplitude\<close> and
  \<open>setAmplitude\<close>.
\<close>

fun phase_loop :: "nat \<Rightarrow> complex \<Rightarrow> nat list \<Rightarrow> QuantumState \<Rightarrow> outcome \<times> QuantumState" where
  "phase_loop bmask phase_factor [] st = (None, st)"
| "phase_loop bmask phase_factor (i # is) st =
     (if i AND bmask \<noteq> 0 then
        (case getAmplitude st (int i) of
           Inl e \<Rightarrow> (Some e, st)
         | Inr current_amp \<Rightarrow>
             (case setAmplitude (int i) (current_amp * phase_factor) st of
                (None, st') \<Rightarrow> phase_loop bmask phase_factor is st'
              | r \<Rightarrow> r))
      else phase_loop bmask phase_factor is st)"

subsection \<open>\<open>apply\<close>\<close>

text \<open>
  \<open>INV_SQRT2\<close> is the \<open>double\<close> that the literal \<open>0.70710678118654752440\<close> of the source
  denotes: \<open>6369051672525773 / 2 ^ 53\<close>, the \<open>double\<close> nearest to \<open>1/\<surd>2\<close>. Its square is
  not \<open>1/2\<close>.
\<close>

definition INV_SQRT2 :: complex where
  "INV_SQRT2 = complex_of_real (6369051672525773 / 2 ^ 53)"

definition HadamardGate_apply :: "int \<Rightarrow> QuantumState \<Rightarrow> outcome \<times> QuantumState" where
  "HadamardGate_apply target_qubit st =
     (if target_qubit \<ge> getNumQubits st then (Some (Thrown InvalidArgument), st)
      else
        let old_amplitudes = amplitudes st;
            bmask = push_bit (nat target_qubit) (1::nat)
        in case for_loop
                  (pair_step (\<lambda>amp0 amp1. (amp0 + amp1) * INV_SQRT2)
                             (\<lambda>amp0 amp1. (amp0 - amp1) * INV_SQRT2) bmask old_amplitudes)
                  [0..<state_size st] (replicate (state_size st) 0) of
             None \<Rightarrow> (Some Fault, st)
           | Some new_amplitudes \<Rightarrow> commit new_amplitudes [0..<state_size st] st)"

definition CNOTGate_apply :: "int \<Rightarrow> int \<Rightarrow> QuantumState \<Rightarrow> outcome \<times> QuantumState" where
  "CNOTGate_apply control_qubit target_qubit st =
     (if control_qubit \<ge> getNumQubits st \<or> target_qubit \<ge> getNumQubits st
      then (Some (Thrown InvalidArgument), st)
      else
        let old_amplitudes = amplitudes st;
            control_mask = push_bit (nat control_qubit) (1::nat);
            target_mask = push_bit (nat target_qubit) (1::nat)
        in case for_loop
                  (scatter_step (\<lambda>i. i AND control_mask \<noteq> 0) (\<lambda>i. int (i XOR target_mask))
                     old_amplitudes)
                  [0..<state_size st] old_amplitudes of
             None \<Rightarrow> (Some Fault, st)
           | Some new_amplitudes \<Rightarrow> commit new_amplitudes [0..<state_size st] st)"

definition SWAPGate_apply :: "int \<Rightarrow> int \<Rightarrow> QuantumState \<Rightarrow> outcome \<times> QuantumState" where
  "SWAPGate_apply qubit1 qubit2 st =
     (if qubit1 \<ge> getNumQubits st \<or> qubit2 \<ge> getNumQubits st
      then (Some (Thrown InvalidArgument), st)
      else
        let old_amplitudes = amplitudes st;
            mask1 = push_bit (nat qubit1) (1::nat);
            mask2 = push_bit (nat qubit2) (1::nat)
        in case for_loop (swap_step mask1 mask2 old_amplitudes)
                  [0..<state_size st] old_amplitudes of
             None \<Rightarrow> (Some Fault, st)
           | Some new_amplitudes \<Rightarrow> commit new_amplitudes [0..<state_size st] st)"

definition ToffoliGate_apply ::
  "int \<Rightarrow> int \<Rightarrow> int \<Rightarrow> QuantumState \<Rightarrow> outcome \<times> QuantumState" where
  "ToffoliGate_apply control1_qubit control2_qubit target_qubit st =
     (if control1_qubit \<ge> getNumQubits st \<or> control2_qubit \<ge> getNumQubits st
         \<or> target_qubit \<ge> getNumQubits st
      then (Some (Thrown InvalidArgument), st)
      else
        let old_amplitudes = amplitudes st;
            control1_mask = push_bit (nat control1_qubit) (1::nat);
            control2_mask = push_bit (nat control2_qubit) (1::nat);
            target_mask = push_bit (nat target_qubit) (1::nat)
        in case for_loop
                  (scatter_step (\<lambda>i. i AND control1_mask \<noteq> 0 \<and> i AND control2_mask \<noteq> 0)
                     (\<lambda>i. int (i XOR target_mask)) old_amplitudes)
                  [0..<state_size st] old_amplitudes of
             None \<Rightarrow> (Some Fault, st)
           | Some new_amplitudes \<Rightarrow> commit new_amplitudes [0..<state_size st] st)"

definition PhaseShiftGate_apply ::
  "int \<Rightarrow> complex \<Rightarrow> QuantumState \<Rightarrow> outcome \<times> QuantumState" where
  "PhaseShiftGate_apply target_qubit phase_factor st =
     (if target_qubit \<ge> getNumQubits st then (Some (Thrown InvalidArgument), st)
      else
        let bmask = push_bit (nat target_qubit) (1::nat)
        in phase_loop bmask phase_factor [0..<state_size st] st)"

definition XGate_apply :: "int \<Rightarrow> QuantumState \<Rightarrow> outcome \<times> QuantumState" where
  "XGate_apply target_qubit st =
     (if target_qubit \<ge> getNumQubits st then (Some (Thrown InvalidArgument), st)
      else
        let old_amplitudes = amplitudes st;
            bmask = push_bit (nat target_qubit) (1::nat)
        in case for_loop (pair_step (\<lambda>amp0 amp1. amp1) (\<lambda>amp0 amp1. amp0) bmask old_amplitudes)
                  [0..<state_size st] old_amplitudes of
             None \<Rightarrow> (Some Fault, st)
           | Some new_amplitudes \<Rightarrow> commit new_amplitudes [0..<state_size st] st)"

text \<open>
  \<open>extractTarget\<close>: \<open>(state_index >> start) & ((1ULL << count) - 1)\<close>, a \<open>uint64_t\<close>.
\<close>

definition extractTarget :: "int \<Rightarrow> int \<Rightarrow> nat \<Rightarrow> 64 word" where
  "extractTarget target_qubits_start target_qubits_count state_index =
     word_of_nat (drop_bit (nat target_qubits_start) state_index)
       AND (push_bit (nat target_qubits_count) 1 - 1)"

text \<open>
  \<open>replaceTarget\<close>: the mask (\<open>bmask\<close> below) is computed in \<open>uint64_t\<close> and stored in an \<open>int\<close>; the
  result \<open>cleared | (new_target_value << start)\<close> is computed in \<open>uint64_t\<close> and
  returned as \<open>int\<close>.
\<close>

definition replaceTarget :: "int \<Rightarrow> int \<Rightarrow> nat \<Rightarrow> 64 word \<Rightarrow> int" where
  "replaceTarget target_qubits_start target_qubits_count state_index new_target_value =
     (let bmask = signed_take_bit 31
                   (uint (push_bit (nat target_qubits_start)
                            (push_bit (nat target_qubits_count) 1 - 1 :: 64 word)));
          cleared = int state_index AND NOT bmask
      in signed_take_bit 31
           (uint ((word_of_int cleared :: 64 word)
                    OR push_bit (nat target_qubits_start) new_target_value)))"

text \<open>The destination index that \<open>ControlledModMultGate::apply\<close> computes for index \<open>i\<close>.\<close>

definition cmm_dest :: "int \<Rightarrow> int \<Rightarrow> 64 word \<Rightarrow> 64 word \<Rightarrow> nat \<Rightarrow> int" where
  "cmm_dest target_qubits_start target_qubits_count multiplier modulus i =
     (let y = extractTarget target_qubits_start target_qubits_count i;
          new_y = (multiplier * y) mod modulus
      in replaceTarget target_qubits_start target_qubits_count i new_y)"

definition ControlledModMultGate_apply ::
  "int \<Rightarrow> int \<Rightarrow> int \<Rightarrow> 64 word \<Rightarrow> 64 word \<Rightarrow> QuantumState \<Rightarrow> outcome \<times> QuantumState" where
  "ControlledModMultGate_apply control_qubit target_qubits_start target_qubits_count
       multiplier modulus st =
     (if control_qubit \<ge> getNumQubits st then (Some (Thrown InvalidArgument), st)
      else if int_add target_qubits_start target_qubits_count > getNumQubits st
        then (Some (Thrown InvalidArgument), st)
      else
        let old_amplitudes = amplitudes st;
            control_mask = push_bit (nat control_qubit) (1::nat)
        in case for_loop
                  (scatter_step (\<lambda>i. i AND control_mask \<noteq> 0)
                     (cmm_dest target_qubits_start target_qubits_count multiplier modulus)
                     old_amplitudes)
                  [0..<state_size st] old_amplitudes of
             None \<Rightarrow> (Some Fault, st)
           | Some new_amplitudes \<Rightarrow> commit new_amplitudes [0..<state_size st] st)"

text \<open>The virtual \<open>apply\<close> of \<open>QuantumGate\<close> on the seven primitives.\<close>

fun apply_gate :: "gate \<Rightarrow> QuantumState \<Rightarrow> outcome \<times> QuantumState" where
  "apply_gate (HadamardGate t) st = HadamardGate_apply t st"
| "apply_gate (CNOTGate c t) st = CNOTGate_apply c t st"
| "apply_gate (SWAPGate q1 q2) st = SWAPGate_apply q1 q2 st"
| "apply_gate (ToffoliGate c1 c2 t) st = ToffoliGate_apply c1 c2 t st"
| "apply_gate (PhaseShiftGate t angle phase_factor) st = PhaseShiftGate_apply t phase_factor st"
| "apply_gate (XGate t) st = XGate_apply t st"
| "apply_gate (ControlledModMultGate c ts tc mult md) st =
     ControlledModMultGate_apply c ts tc mult md st"

subsection \<open>Vocabulary for the properties of the primitives\<close>

text \<open>
  A gate object exists only as the result of its constructor; for a \<open>PhaseShiftGate\<close>, with
  the two parts of its phase factor as the values that the library returned.
\<close>

fun constructed :: "gate \<Rightarrow> bool" where
  "constructed (HadamardGate t) = (new_HadamardGate t = Inr (HadamardGate t))"
| "constructed (CNOTGate c t) = (new_CNOTGate c t = Inr (CNOTGate c t))"
| "constructed (SWAPGate q1 q2) = (new_SWAPGate q1 q2 = Inr (SWAPGate q1 q2))"
| "constructed (ToffoliGate c1 c2 t) = (new_ToffoliGate c1 c2 t = Inr (ToffoliGate c1 c2 t))"
| "constructed (PhaseShiftGate t angle phase_factor) =
     (new_PhaseShiftGate t angle (Re phase_factor) (Im phase_factor)
        = Inr (PhaseShiftGate t angle phase_factor))"
| "constructed (XGate t) = (new_XGate t = Inr (XGate t))"
| "constructed (ControlledModMultGate c ts tc mult md) =
     (new_ControlledModMultGate c ts tc mult md = Inr (ControlledModMultGate c ts tc mult md))"

text \<open>
  The qubit indices of the gate lie within the store (the sum is the number \<open>ts + tc\<close>, not
  the 32-bit sum); the validation of \<open>apply\<close> then passes.
\<close>

fun fits :: "gate \<Rightarrow> QuantumState \<Rightarrow> bool" where
  "fits (HadamardGate t) st = (t < getNumQubits st)"
| "fits (CNOTGate c t) st = (c < getNumQubits st \<and> t < getNumQubits st)"
| "fits (SWAPGate q1 q2) st = (q1 < getNumQubits st \<and> q2 < getNumQubits st)"
| "fits (ToffoliGate c1 c2 t) st =
     (c1 < getNumQubits st \<and> c2 < getNumQubits st \<and> t < getNumQubits st)"
| "fits (PhaseShiftGate t angle phase_factor) st = (t < getNumQubits st)"
| "fits (XGate t) st = (t < getNumQubits st)"
| "fits (ControlledModMultGate c ts tc mult md) st =
     (c < getNumQubits st \<and> ts + tc \<le> getNumQubits st)"

text \<open>
  The gates that only move amplitudes between indices, and for each the index whose old
  amplitude ends at index \<open>k\<close>.
\<close>

fun source_index :: "gate \<Rightarrow> nat \<Rightarrow> nat" where
  "source_index (XGate t) k = flip_bit (nat t) k"
| "source_index (CNOTGate c t) k = (if bit k (nat c) then flip_bit (nat t) k else k)"
| "source_index (SWAPGate q1 q2) k =
     (if bit k (nat q1) \<noteq> bit k (nat q2) then flip_bit (nat q2) (flip_bit (nat q1) k) else k)"
| "source_index (ToffoliGate c1 c2 t) k =
     (if bit k (nat c1) \<and> bit k (nat c2) then flip_bit (nat t) k else k)"
| "source_index g k = k"

fun self_inverse_kind :: "gate \<Rightarrow> bool" where
  "self_inverse_kind (XGate t) = True"
| "self_inverse_kind (CNOTGate c t) = True"
| "self_inverse_kind (SWAPGate q1 q2) = True"
| "self_inverse_kind (ToffoliGate c1 c2 t) = True"
| "self_inverse_kind g = False"

definition permute :: "(nat \<Rightarrow> nat) \<Rightarrow> QuantumState \<Rightarrow> QuantumState" where
  "permute f st = st\<lparr>amplitudes := map (\<lambda>k. amplitudes st ! f k) [0..<state_size st]\<rparr>"

text \<open>
  The value of the field of \<open>tc\<close> bits at bit \<open>ts\<close> of an index, and the index with that
  field replaced by \<open>v\<close>.
\<close>

definition field_value :: "nat \<Rightarrow> nat \<Rightarrow> nat \<Rightarrow> nat" where
  "field_value ts tc i = take_bit tc (drop_bit ts i)"

definition replace_field :: "nat \<Rightarrow> nat \<Rightarrow> nat \<Rightarrow> nat \<Rightarrow> nat" where
  "replace_field ts tc i v =
     take_bit ts i OR push_bit ts (take_bit tc v) OR push_bit (ts + tc) (drop_bit (ts + tc) i)"

text \<open>
  The new field value \<open>(multiplier * y) % modulus\<close> as a number: the product is taken in
  \<open>uint64_t\<close>, so it is reduced modulo \<open>2 ^ 64\<close> first.
\<close>

definition cmm_new_value :: "64 word \<Rightarrow> 64 word \<Rightarrow> nat \<Rightarrow> nat" where
  "cmm_new_value multiplier modulus y = ((unat multiplier * y) mod 2 ^ 64) mod unat modulus"

text \<open>The destination of index \<open>i\<close> as a number.\<close>

definition cmm_target :: "int \<Rightarrow> int \<Rightarrow> 64 word \<Rightarrow> 64 word \<Rightarrow> nat \<Rightarrow> nat" where
  "cmm_target ts tc multiplier modulus i =
     replace_field (nat ts) (nat tc) i
       (cmm_new_value multiplier modulus (field_value (nat ts) (nat tc) i))"

text \<open>The amplitudes \<open>HadamardGate::apply\<close> leaves, from the old ones.\<close>

definition hadamard_amps :: "nat \<Rightarrow> nat \<Rightarrow> complex list \<Rightarrow> complex list" where
  "hadamard_amps N t a =
     map (\<lambda>k. if bit k t then (a ! unset_bit t k - a ! k) * INV_SQRT2
               else (a ! k + a ! set_bit t k) * INV_SQRT2) [0..<N]"



section \<open>Composite circuits (quantum\_arithmetic.h)\<close>

text \<open>
  \<open>G g(...); g.apply(state);\<close>: the constructor may throw, then \<open>apply\<close> runs on the
  store.
\<close>

definition construct_apply :: "error + gate \<Rightarrow> QuantumState \<Rightarrow> outcome \<times> QuantumState" where
  "construct_apply c st = (case c of Inl e \<Rightarrow> (Some (Thrown e), st) | Inr g \<Rightarrow> apply_gate g st)"

text \<open>Sequencing of two statements: the second runs if the first returns.\<close>

definition and_then ::
  "(QuantumState \<Rightarrow> outcome \<times> QuantumState) \<Rightarrow> (QuantumState \<Rightarrow> outcome \<times> QuantumState) \<Rightarrow>
   QuantumState \<Rightarrow> outcome \<times> QuantumState" where
  "and_then f g st = (case f st of (None, st') \<Rightarrow> g st' | r \<Rightarrow> r)"

fun gate_loop ::
  "(nat \<Rightarrow> QuantumState \<Rightarrow> outcome \<times> QuantumState) \<Rightarrow> nat list \<Rightarrow> QuantumState \<Rightarrow>
   outcome \<times> QuantumState" where
  "gate_loop body [] st = (None, st)"
| "gate_loop body (i # is) st = and_then (body i) (gate_loop body is) st"

definition new_QuantumAdder :: "int \<Rightarrow> int \<Rightarrow> int \<Rightarrow> int \<Rightarrow> error + (int \<times> int \<times> int \<times> int)" where
  "new_QuantumAdder a_start b_start carry_start num_bits =
     (if a_start < 0 \<or> b_start < 0 \<or> carry_start < 0 then Inl InvalidArgument
      else if num_bits \<le> 0 then Inl InvalidArgument
      else Inr (a_start, b_start, carry_start, num_bits))"

definition QuantumAdder_body :: "int \<Rightarrow> int \<Rightarrow> int \<Rightarrow> nat \<Rightarrow> QuantumState \<Rightarrow> outcome \<times> QuantumState" where
  "QuantumAdder_body a_start b_start carry_start i =
     (let a_qubit = int_add a_start (int i);
          b_qubit = int_add b_start (int i);
          carry_in = int_add carry_start (int i);
          carry_out = int_add (int_add carry_start (int i)) 1
      in and_then (construct_apply (new_ToffoliGate a_qubit b_qubit carry_out))
        (and_then (construct_apply (new_ToffoliGate a_qubit carry_in carry_out))
        (and_then (construct_apply (new_ToffoliGate b_qubit carry_in carry_out))
        (and_then (construct_apply (new_CNOTGate a_qubit b_qubit))
                  (construct_apply (new_CNOTGate carry_in b_qubit))))))"

definition QuantumAdder_apply ::
  "int \<Rightarrow> int \<Rightarrow> int \<Rightarrow> int \<Rightarrow> QuantumState \<Rightarrow> outcome \<times> QuantumState" where
  "QuantumAdder_apply a_start b_start carry_start num_bits st =
     (let total_qubits = getNumQubits st in
      if int_add a_start num_bits > total_qubits \<or> int_add b_start num_bits > total_qubits
         \<or> int_add (int_add carry_start num_bits) 1 > total_qubits
      then (Some (Thrown InvalidArgument), st)
      else gate_loop (QuantumAdder_body a_start b_start carry_start) [0..<nat num_bits] st)"

text \<open>
  \<open>ancilla_start\<close> (default \<open>-1\<close>) is stored by the constructor; neither the constructor
  nor \<open>apply\<close> reads it again.
\<close>

definition new_QuantumComparator ::
  "int \<Rightarrow> int \<Rightarrow> int \<Rightarrow> int \<Rightarrow> int \<Rightarrow> error + (int \<times> int \<times> int \<times> int \<times> int)" where
  "new_QuantumComparator a_start b_start result_start num_bits ancilla_start =
     (if a_start < 0 \<or> b_start < 0 \<or> result_start < 0 then Inl InvalidArgument
      else if num_bits \<le> 0 then Inl InvalidArgument
      else Inr (a_start, b_start, result_start, num_bits, ancilla_start))"

definition QuantumComparator_body ::
  "int \<Rightarrow> int \<Rightarrow> int \<Rightarrow> nat \<Rightarrow> QuantumState \<Rightarrow> outcome \<times> QuantumState" where
  "QuantumComparator_body a_start b_start result_start i =
     (let a_qubit = int_add a_start (int i);
          b_qubit = int_add b_start (int i);
          result_qubit = int_add (int_add result_start 1) (int i)
      in and_then (construct_apply (new_CNOTGate a_qubit b_qubit))
        (and_then (construct_apply (new_XGate b_qubit))
                  (construct_apply
                     (new_ToffoliGate b_qubit (int_sub result_qubit 1) result_qubit))))"

definition QuantumComparator_apply ::
  "int \<Rightarrow> int \<Rightarrow> int \<Rightarrow> int \<Rightarrow> QuantumState \<Rightarrow> outcome \<times> QuantumState" where
  "QuantumComparator_apply a_start b_start result_start num_bits st =
     (let total_qubits = getNumQubits st in
      if int_add a_start num_bits > total_qubits \<or> int_add b_start num_bits > total_qubits
         \<or> int_add (int_add result_start num_bits) 1 > total_qubits
      then (Some (Thrown InvalidArgument), st)
      else and_then (construct_apply (new_XGate result_start))
             (gate_loop (QuantumComparator_body a_start b_start result_start)
                [0..<nat num_bits]) st)"

section \<open>The exponentiation orchestrator (main.cpp)\<close>

text \<open>The Euclidean loop of \<open>gcd\<close> on \<open>uint64_t\<close>.\<close>

function gcd_loop :: "64 word \<Rightarrow> 64 word \<Rightarrow> 64 word" where
  "gcd_loop a b = (if b \<noteq> 0 then gcd_loop b (a mod b) else a)"
  by pat_completeness auto
termination
proof (relation "measure (\<lambda>(a, b). unat b)")
  show "wf (measure (\<lambda>(a, b). unat b))" by simp
next
  fix a b :: "64 word"
  assume "b \<noteq> 0"
  then have "unat (a mod b) < unat b"
    by (simp add: unat_mod unat_gt_0)
  then show "((b, a mod b), (a, b)) \<in> measure (\<lambda>(a, b). unat b)" by simp
qed

text \<open>
  The checks of \<open>main\<close> on the three numbers read from the file; \<open>main\<close> returns 1
  without building a circuit when one fails.
\<close>

definition input_accepted :: "64 word \<Rightarrow> 64 word \<Rightarrow> int \<Rightarrow> bool" where
  "input_accepted base modulus num_qubits' =
     (if base = 0 \<or> modulus = 0 \<or> num_qubits' \<le> 0 then False
      else if num_qubits' > 10 then False
      else if modulus \<ge> 1024 then False
      else gcd_loop base modulus = 1)"

text \<open>
  Step 1: the loop that counts the bits of \<open>modulus - 1\<close>; the counter stays below 65.
\<close>

function count_bits :: "64 word \<Rightarrow> int \<Rightarrow> int" where
  "count_bits temp target_qubits =
     (if temp > 0 then count_bits (drop_bit 1 temp) (target_qubits + 1) else target_qubits)"
  by pat_completeness auto
termination
proof (relation "measure (\<lambda>(temp, target_qubits). unat temp)")
  show "wf (measure (\<lambda>(temp, target_qubits). unat temp))" by simp
next
  fix temp :: "64 word" and target_qubits :: int
  assume "0 < temp"
  then have "0 < unat temp" by (simp add: word_less_nat_alt)
  then have "unat temp div 2 < unat temp" by simp
  moreover have "unat (drop_bit 1 temp) = unat temp div 2"
    unfolding unat_drop_bit_eq by (simp add: drop_bit_eq_div)
  ultimately have "unat (drop_bit 1 temp) < unat temp"
    by (simp only:)
  then show "((drop_bit 1 temp, target_qubits + 1), (temp, target_qubits))
               \<in> measure (\<lambda>(temp, target_qubits). unat temp)" by simp
qed

text \<open>Step 4: \<open>powers[i] = base ^ (2 ^ i) mod modulus\<close> by repeated squaring.\<close>

primrec powers_loop :: "64 word \<Rightarrow> 64 word \<Rightarrow> nat \<Rightarrow> 64 word list" where
  "powers_loop modulus current_power 0 = []"
| "powers_loop modulus current_power (Suc n) =
     current_power # powers_loop modulus ((current_power * current_power) mod modulus) n"

text \<open>
  Steps 1 to 5 of \<open>main\<close>: the store after the last controlled multiplication.
  \<open>num_qubits\<close> is at most 10 here, so \<open>1 << num_qubits\<close> does not overflow, and
  \<open>powers[i]\<close> is read at \<open>i < num_qubits\<close>, inside the vector.
\<close>

definition modexp_circuit :: "64 word \<Rightarrow> 64 word \<Rightarrow> int \<Rightarrow> failure + QuantumState" where
  "modexp_circuit base modulus num_qubits' =
     (let counted = count_bits (modulus - 1) 0;
          target_qubits = (if counted = 0 then 1 else counted);
          total_qubits = int_add num_qubits' target_qubits
      in case QuantumState_new total_qubits of
           Inl f \<Rightarrow> Inl f
         | Inr state \<Rightarrow>
             (let powers = powers_loop modulus (base mod modulus) (nat num_qubits');
                  run =
                    and_then (setAmplitude 0 0)
                   (and_then (setAmplitude (push_bit (nat num_qubits') 1) 1)
                   (and_then (gate_loop (\<lambda>i. construct_apply (new_HadamardGate (int i)))
                                [0..<nat num_qubits'])
                             (gate_loop
                                (\<lambda>i. construct_apply
                                       (new_ControlledModMultGate (int i) num_qubits'
                                          target_qubits (powers ! i) modulus))
                                [0..<nat num_qubits'])))
              in case run state of
                   (None, st) \<Rightarrow> Inr st
                 | (Some f, st) \<Rightarrow> Inl f))"

subsection \<open>Vocabulary for the properties of the composites\<close>

text \<open>Two registers \<open>[s1, s1 + c1)\<close> and \<open>[s2, s2 + c2)\<close> do not overlap.\<close>

definition no_overlap :: "int \<Rightarrow> int \<Rightarrow> int \<Rightarrow> int \<Rightarrow> bool" where
  "no_overlap s1 c1 s2 c2 \<longleftrightarrow> s1 + c1 \<le> s2 \<or> s2 + c2 \<le> s1"

text \<open>
  The basis index that one pass of the adder's loop body, and the whole loop, make of basis
  index \<open>k\<close>: the five gates of the body in their order.
\<close>

definition adder_step_index :: "int \<Rightarrow> int \<Rightarrow> int \<Rightarrow> nat \<Rightarrow> nat \<Rightarrow> nat" where
  "adder_step_index a_start b_start carry_start i k =
     (let a_qubit = a_start + int i;
          b_qubit = b_start + int i;
          carry_in = carry_start + int i;
          carry_out = carry_start + int i + 1;
          k1 = source_index (ToffoliGate a_qubit b_qubit carry_out) k;
          k2 = source_index (ToffoliGate a_qubit carry_in carry_out) k1;
          k3 = source_index (ToffoliGate b_qubit carry_in carry_out) k2;
          k4 = source_index (CNOTGate a_qubit b_qubit) k3
      in source_index (CNOTGate carry_in b_qubit) k4)"

definition adder_index :: "int \<Rightarrow> int \<Rightarrow> int \<Rightarrow> int \<Rightarrow> nat \<Rightarrow> nat" where
  "adder_index a_start b_start carry_start num_bits k =
     fold (adder_step_index a_start b_start carry_start) [0..<nat num_bits] k"

text \<open>The same for the comparator.\<close>

definition comparator_step_index :: "int \<Rightarrow> int \<Rightarrow> int \<Rightarrow> nat \<Rightarrow> nat \<Rightarrow> nat" where
  "comparator_step_index a_start b_start result_start i k =
     (let a_qubit = a_start + int i;
          b_qubit = b_start + int i;
          result_qubit = result_start + 1 + int i;
          k1 = source_index (CNOTGate a_qubit b_qubit) k;
          k2 = source_index (XGate b_qubit) k1
      in source_index (ToffoliGate b_qubit (result_qubit - 1) result_qubit) k2)"

definition comparator_index :: "int \<Rightarrow> int \<Rightarrow> int \<Rightarrow> int \<Rightarrow> nat \<Rightarrow> nat" where
  "comparator_index a_start b_start result_start num_bits k =
     fold (comparator_step_index a_start b_start result_start) [0..<nat num_bits]
       (source_index (XGate result_start) k)"

section \<open>32-bit sums\<close>

lemma int_add_eq: "- (2 ^ 31) \<le> x + y \<Longrightarrow> x + y < 2 ^ 31 \<Longrightarrow> int_add x y = x + y"
  by (simp add: int_add_def signed_take_bit_int_eq_self)

lemma int_sub_eq: "- (2 ^ 31) \<le> x - y \<Longrightarrow> x - y < 2 ^ 31 \<Longrightarrow> int_sub x y = x - y"
  by (simp add: int_sub_def signed_take_bit_int_eq_self)

lemma int_add_small: "0 \<le> x \<Longrightarrow> 0 \<le> y \<Longrightarrow> x + y \<le> 31 \<Longrightarrow> int_add x y = x + y"
  by (rule int_add_eq) simp_all

section \<open>The loops\<close>


lemma for_loop_append:
  "for_loop body (xs @ ys) s =
     (case for_loop body xs s of None \<Rightarrow> None | Some s' \<Rightarrow> for_loop body ys s')"
  by (induction xs arbitrary: s) (auto split: option.splits)

lemma for_loop_snoc:
  "for_loop body [0..<Suc m] s =
     (case for_loop body [0..<m] s of None \<Rightarrow> None | Some s' \<Rightarrow> body m s')"
  by (simp add: for_loop_append split: option.splits)

lemma commit_append:
  "commit new (xs @ ys) st =
     (case commit new xs st of (None, st') \<Rightarrow> commit new ys st' | r \<Rightarrow> r)"
  by (induction xs arbitrary: st) (auto split: option.splits prod.splits option.splits)

lemma commit_prefix:
  assumes "length new = N" "length (amplitudes st) = N" "state_size st = N" "m \<le> N"
  shows "commit new [0..<m] st =
           (None, st\<lparr>amplitudes := take m new @ drop m (amplitudes st)\<rparr>)"
  using assms(4)
proof (induction m)
  case 0
  then show ?case by simp
next
  case (Suc m)
  have eq: "(take m new @ drop m (amplitudes st))[m := new ! m]
              = take (Suc m) new @ drop (Suc m) (amplitudes st)"
    using Suc.prems assms(1,2)
    by (intro nth_equalityI) (auto simp: nth_append nth_list_update min_def)
  show ?case
    using Suc assms eq
    by (simp add: commit_append vec_get_def setAmplitude_def vec_set_def)
qed

lemma commit_all:
  assumes "length new = state_size st" "length (amplitudes st) = state_size st"
  shows "commit new [0..<state_size st] st = (None, st\<lparr>amplitudes := new\<rparr>)"
  using commit_prefix [OF assms(1) assms(2) refl le_refl] assms by simp

lemma and_mask_bit [simp]: "(i AND (2::nat) ^ t = 0) \<longleftrightarrow> \<not> bit i t"
  by (simp add: and_exp_eq_0_iff_not_bit)

lemma and_mask_pos [simp]: "(0 < i AND (2::nat) ^ t) \<longleftrightarrow> bit i t"
  using and_mask_bit [of i t] by (cases "i AND 2 ^ t = 0") (simp_all del: and_mask_bit)

lemma xor_mask_flip [simp]: "i XOR (2::nat) ^ t = flip_bit t i"
  by (simp add: flip_bit_nat_def)

lemma nat_lt_pow2_bit: "(k::nat) < 2 ^ n \<longleftrightarrow> (\<forall>q. bit k q \<longrightarrow> q < n)"
proof
  assume "k < 2 ^ n"
  then have "take_bit n k = k" by (rule take_bit_nat_eq_self)
  then have "\<And>q. bit k q = bit (take_bit n k) q" by simp
  then show "\<forall>q. bit k q \<longrightarrow> q < n" by (auto simp: bit_take_bit_iff)
next
  assume h: "\<forall>q. bit k q \<longrightarrow> q < n"
  have "take_bit n k = k"
    by (rule bit_eqI) (use h in \<open>auto simp: bit_take_bit_iff\<close>)
  then show "k < 2 ^ n" by (simp add: take_bit_nat_eq_self_iff)
qed

lemma flip_bit_lt: "t < n \<Longrightarrow> (k::nat) < 2 ^ n \<Longrightarrow> flip_bit t k < 2 ^ n"
  by (auto simp: nat_lt_pow2_bit bit_flip_bit_iff)

lemma set_bit_lt: "t < n \<Longrightarrow> (k::nat) < 2 ^ n \<Longrightarrow> set_bit t k < 2 ^ n"
  by (auto simp: nat_lt_pow2_bit bit_set_bit_iff)

lemma unset_bit_lt: "(k::nat) < 2 ^ n \<Longrightarrow> unset_bit t k < 2 ^ n"
  by (auto simp: nat_lt_pow2_bit bit_unset_bit_iff)

lemma flip_flip [simp]: "flip_bit t (flip_bit t (k::nat)) = k"
  by (rule bit_eqI) (auto simp: bit_flip_bit_iff)



lemma unset_eq_cases: "unset_bit t (k::nat) = m \<Longrightarrow> k = m \<or> k = set_bit t m"
  by (cases "bit k t") (auto intro!: bit_eqI simp: bit_set_bit_iff bit_unset_bit_iff)

lemma pair_loop:
  assumes "t < n" "length old = 2 ^ n" "length init = 2 ^ n" "m \<le> 2 ^ n"
  shows "for_loop (pair_step f0 f1 (push_bit t 1) old) [0..<m] init =
           Some (map (\<lambda>k. if unset_bit t k < m
                           then (if bit k t then f1 (old ! unset_bit t k) (old ! k)
                                 else f0 (old ! k) (old ! set_bit t k))
                           else init ! k) [0..<2 ^ n])"
  using assms(4)
proof (induction m)
  case 0
  then show ?case using assms(3) by (simp add: map_nth [symmetric] del: map_nth) (metis map_nth)
next
  case (Suc m)
  let ?r = "\<lambda>m. map (\<lambda>k. if unset_bit t k < m
                           then (if bit k t then f1 (old ! unset_bit t k) (old ! k)
                                 else f0 (old ! k) (old ! set_bit t k))
                           else init ! k) [0..<2 ^ n]"
  have IH: "for_loop (pair_step f0 f1 (push_bit t 1) old) [0..<m] init = Some (?r m)"
    using Suc by simp
  have m: "m < 2 ^ n" using Suc.prems by simp
  show ?case
  proof (cases "bit m t")
    case True
    have "unset_bit t k \<noteq> m" for k
      using True by (metis bit_unset_bit_iff)
    then have "?r (Suc m) = ?r m"
      by (auto simp: less_Suc_eq)
    moreover have "pair_step f0 f1 (push_bit t 1) old m (?r m) = Some (?r m)"
      using True by (simp add: pair_step_def)
    ultimately show ?thesis
      using IH by (simp add: for_loop_append)
  next
    case False
    have fl: "flip_bit t m = set_bit t m" using False by (simp add: flip_bit_eq_if)
    have j: "set_bit t m < 2 ^ n" using m assms(1) by (rule set_bit_lt [rotated])
    have um: "unset_bit t m = m"
      using False by (auto intro!: bit_eqI simp: bit_unset_bit_iff)
    have uj: "unset_bit t (set_bit t m) = m"
      using False by (auto intro!: bit_eqI simp: bit_unset_bit_iff bit_set_bit_iff)
    have bj: "bit (set_bit t m) t" by (simp add: bit_set_bit_iff)
    have ne: "set_bit t m \<noteq> m" using False bj by metis
    have "((?r m)[m := f0 (old ! m) (old ! set_bit t m)])
             [set_bit t m := f1 (old ! m) (old ! set_bit t m)] = ?r (Suc m)"
    proof (rule nth_equalityI)
      show "length (((?r m)[m := f0 (old ! m) (old ! set_bit t m)])
             [set_bit t m := f1 (old ! m) (old ! set_bit t m)]) = length (?r (Suc m))"
        by simp
    next
      fix k
      assume "k < length (((?r m)[m := f0 (old ! m) (old ! set_bit t m)])
             [set_bit t m := f1 (old ! m) (old ! set_bit t m)])"
      then have k: "k < 2 ^ n" by simp
      consider "k = m" | "k = set_bit t m" | "k \<noteq> m" "k \<noteq> set_bit t m" by blast
      then show "((?r m)[m := f0 (old ! m) (old ! set_bit t m)])
             [set_bit t m := f1 (old ! m) (old ! set_bit t m)] ! k = ?r (Suc m) ! k"
      proof cases
        case 1
        then show ?thesis using k m j ne False um by (simp add: nth_list_update)
      next
        case 2
        then show ?thesis using k m j ne bj uj by (simp add: nth_list_update)
      next
        case 3
        then have "unset_bit t k \<noteq> m" using unset_eq_cases by blast
        then show ?thesis using 3 k m j by (simp add: nth_list_update less_Suc_eq)
      qed
    qed
    moreover have "pair_step f0 f1 (push_bit t 1) old m (?r m) =
        Some (((?r m)[m := f0 (old ! m) (old ! set_bit t m)])
             [set_bit t m := f1 (old ! m) (old ! set_bit t m)])"
      using False m j fl assms(2)
      by (simp add: pair_step_def vec_get_def vec_set_def Let_def)
    ultimately show ?thesis
      using IH by (simp add: for_loop_append)
  qed
qed

lemma scatter_loop:
  assumes len: "length old = N" "length init = N"
    and inb: "\<And>i. i < N \<Longrightarrow> cond i \<Longrightarrow> 0 \<le> dest i \<and> nat (dest i) < N"
    and m: "m \<le> N"
  shows "\<exists>r. for_loop (scatter_step cond dest old) [0..<m] init = Some r \<and> length r = N \<and>
           (\<forall>k<N. (\<forall>i<m. cond i \<longrightarrow> dest i \<noteq> int k) \<longrightarrow> r ! k = init ! k) \<and>
           (\<forall>i<m. cond i \<longrightarrow> (\<forall>i'<m. i < i' \<longrightarrow> cond i' \<longrightarrow> dest i' \<noteq> dest i) \<longrightarrow>
                 r ! nat (dest i) = old ! i)"
  using m
proof (induction m)
  case 0
  then show ?case using len by simp
next
  case (Suc m)
  then obtain r where r: "for_loop (scatter_step cond dest old) [0..<m] init = Some r"
    "length r = N"
    "\<forall>k<N. (\<forall>i<m. cond i \<longrightarrow> dest i \<noteq> int k) \<longrightarrow> r ! k = init ! k"
    "\<forall>i<m. cond i \<longrightarrow> (\<forall>i'<m. i < i' \<longrightarrow> cond i' \<longrightarrow> dest i' \<noteq> dest i) \<longrightarrow>
                 r ! nat (dest i) = old ! i"
    by auto
  have mN: "m < N" using Suc.prems by simp
  show ?case
  proof (cases "cond m")
    case False
    then have "scatter_step cond dest old m r = Some r" by (simp add: scatter_step_def)
    then have "for_loop (scatter_step cond dest old) [0..<Suc m] init = Some r"
      using r(1) by (simp add: for_loop_append)
    moreover have "\<forall>k<N. (\<forall>i<Suc m. cond i \<longrightarrow> dest i \<noteq> int k) \<longrightarrow> r ! k = init ! k"
      using r(3) by (simp add: less_Suc_eq)
    moreover have "\<forall>i<Suc m. cond i \<longrightarrow>
        (\<forall>i'<Suc m. i < i' \<longrightarrow> cond i' \<longrightarrow> dest i' \<noteq> dest i) \<longrightarrow> r ! nat (dest i) = old ! i"
      using r(4) False by (metis less_Suc_eq)
    ultimately show ?thesis using r(2) by blast
  next
    case True
    have d: "0 \<le> dest m" "nat (dest m) < N" using inb [OF mN True] by auto
    let ?r' = "r[nat (dest m) := old ! m]"
    have "scatter_step cond dest old m r = Some ?r'"
      using True d mN len r(2) by (simp add: scatter_step_def vec_get_def vec_set_def)
    then have 1: "for_loop (scatter_step cond dest old) [0..<Suc m] init = Some ?r'"
      using r(1) by (simp add: for_loop_append)
    have 2: "\<forall>k<N. (\<forall>i<Suc m. cond i \<longrightarrow> dest i \<noteq> int k) \<longrightarrow> ?r' ! k = init ! k"
    proof (intro allI impI)
      fix k assume k: "k < N" and h: "\<forall>i<Suc m. cond i \<longrightarrow> dest i \<noteq> int k"
      then have "dest m \<noteq> int k" using True by simp
      then have "nat (dest m) \<noteq> k" using d by auto
      moreover have "r ! k = init ! k" using r(3) k h by simp
      ultimately show "?r' ! k = init ! k" by simp
    qed
    have 3: "\<forall>i<Suc m. cond i \<longrightarrow>
        (\<forall>i'<Suc m. i < i' \<longrightarrow> cond i' \<longrightarrow> dest i' \<noteq> dest i) \<longrightarrow> ?r' ! nat (dest i) = old ! i"
    proof (intro allI impI)
      fix i assume i: "i < Suc m" "cond i"
        and h: "\<forall>i'<Suc m. i < i' \<longrightarrow> cond i' \<longrightarrow> dest i' \<noteq> dest i"
      show "?r' ! nat (dest i) = old ! i"
      proof (cases "i = m")
        case True
        then show ?thesis using d r(2) by simp
      next
        case False
        then have im: "i < m" using i by simp
        then have "dest m \<noteq> dest i" using h True by simp
        moreover have "0 \<le> dest i" using inb [of i] im mN i(2) by simp
        ultimately have "nat (dest m) \<noteq> nat (dest i)" using d by auto
        moreover have "r ! nat (dest i) = old ! i" using r(4) im i(2) h by simp
        ultimately show ?thesis by simp
      qed
    qed
    show ?thesis using 1 2 3 r(2) by simp
  qed
qed

text \<open>The scatter loop whose destination map is an involution on the controlled indices.\<close>

lemma scatter_loop_invol:
  assumes len: "length old = N"
    and d: "\<And>i. i < N \<Longrightarrow> cond i \<Longrightarrow> d i < N \<and> cond (d i) \<and> d (d i) = i"
  shows "for_loop (scatter_step cond (\<lambda>i. int (d i)) old) [0..<N] old =
           Some (map (\<lambda>k. if cond k then old ! d k else old ! k) [0..<N])"
proof -
  obtain r where r: "for_loop (scatter_step cond (\<lambda>i. int (d i)) old) [0..<N] old = Some r"
    "length r = N"
    "\<forall>k<N. (\<forall>i<N. cond i \<longrightarrow> int (d i) \<noteq> int k) \<longrightarrow> r ! k = old ! k"
    "\<forall>i<N. cond i \<longrightarrow> (\<forall>i'<N. i < i' \<longrightarrow> cond i' \<longrightarrow> int (d i') \<noteq> int (d i)) \<longrightarrow>
                 r ! nat (int (d i)) = old ! i"
    using scatter_loop [of old N old cond "\<lambda>i. int (d i)" N] len d by auto
  have "r = map (\<lambda>k. if cond k then old ! d k else old ! k) [0..<N]"
  proof (rule nth_equalityI)
    show "length r = length (map (\<lambda>k. if cond k then old ! d k else old ! k) [0..<N])"
      using r(2) by simp
  next
    fix k assume "k < length r"
    then have k: "k < N" using r(2) by simp
    show "r ! k = map (\<lambda>k. if cond k then old ! d k else old ! k) [0..<N] ! k"
    proof (cases "cond k")
      case True
      have dk: "d k < N" "cond (d k)" "d (d k) = k" using d [OF k True] by auto
      have "\<forall>i'<N. d k < i' \<longrightarrow> cond i' \<longrightarrow> int (d i') \<noteq> int (d (d k))"
        using d dk by (metis nat_neq_iff of_nat_eq_iff)
      then have "r ! nat (int (d (d k))) = old ! d k" using r(4) dk by blast
      then show ?thesis using True k dk by simp
    next
      case False
      have "\<forall>i<N. cond i \<longrightarrow> int (d i) \<noteq> int k"
        using d False by auto
      then show ?thesis using r(3) k False by simp
    qed
  qed
  then show ?thesis using r(1) by simp
qed

lemma swap_loop:
  assumes len: "length old = 2 ^ n" "length init = 2 ^ n" and q: "q1 < n" "q2 < n"
    and m: "m \<le> 2 ^ n"
  shows "for_loop (swap_step (push_bit q1 1) (push_bit q2 1) old) [0..<m] init =
           Some (map (\<lambda>k. if k < m \<and> bit k q1 \<noteq> bit k q2
                           then old ! flip_bit q2 (flip_bit q1 k) else init ! k) [0..<2 ^ n])"
  using m
proof (induction m)
  case 0
  then show ?case using len by (simp add: map_nth [symmetric] del: map_nth) (metis map_nth)
next
  case (Suc m)
  let ?r = "\<lambda>m. map (\<lambda>k. if k < m \<and> bit k q1 \<noteq> bit k q2
                           then old ! flip_bit q2 (flip_bit q1 k) else init ! k) [0..<2 ^ n]"
  have IH: "for_loop (swap_step (push_bit q1 1) (push_bit q2 1) old) [0..<m] init = Some (?r m)"
    using Suc by simp
  have mN: "m < 2 ^ n" using Suc.prems by simp
  have j: "flip_bit q2 (flip_bit q1 m) < 2 ^ n"
    using q mN by (simp add: flip_bit_lt)
  have "swap_step (push_bit q1 1) (push_bit q2 1) old m (?r m) = Some (?r (Suc m))"
  proof (cases "bit m q1 \<noteq> bit m q2")
    case True
    have "(?r m)[m := old ! flip_bit q2 (flip_bit q1 m)] = ?r (Suc m)"
      using mN True by (intro nth_equalityI) (auto simp: nth_list_update less_Suc_eq)
    then show ?thesis
      using True mN j len by (simp add: swap_step_def vec_get_def vec_set_def Let_def)
  next
    case False
    then have "?r (Suc m) = ?r m" by (auto simp: less_Suc_eq)
    then show ?thesis using False by (simp add: swap_step_def Let_def)
  qed
  then show ?case using IH by (simp add: for_loop_append)
qed



lemma wf_stateD:
  assumes "wf_state st"
  shows "0 < num_qubits st" "num_qubits st \<le> 30" "state_size st = 2 ^ num_qubits st"
    "length (amplitudes st) = 2 ^ num_qubits st"
  using assms by (auto simp: wf_state_def)

lemma nat_lt_num: "0 \<le> t \<Longrightarrow> t < int n \<Longrightarrow> nat t < n"
  by simp

lemma XGate_apply_eq:
  assumes wf: "wf_state st" and t: "0 \<le> t" "t < int (num_qubits st)"
  shows "XGate_apply t st = (None, permute (flip_bit (nat t)) st)"
proof -
  let ?n = "num_qubits st" and ?old = "amplitudes st"
  have tn: "nat t < ?n" using t by simp
  have "for_loop (pair_step (\<lambda>amp0 amp1. amp1) (\<lambda>amp0 amp1. amp0) (push_bit (nat t) 1) ?old)
          [0..<2 ^ ?n] ?old
        = Some (map (\<lambda>k. ?old ! flip_bit (nat t) k) [0..<2 ^ ?n])"
    using pair_loop [OF tn wf_stateD(4) [OF wf] wf_stateD(4) [OF wf] le_refl]
    by (simp add: unset_bit_lt flip_bit_eq_if cong: map_cong)
  moreover have "commit (map (\<lambda>k. ?old ! flip_bit (nat t) k) [0..<2 ^ ?n]) [0..<state_size st] st
        = (None, st\<lparr>amplitudes := map (\<lambda>k. ?old ! flip_bit (nat t) k) [0..<2 ^ ?n]\<rparr>)"
    using wf by (intro commit_all) (simp_all add: wf_state_def)
  ultimately show ?thesis
    using t wf_stateD(3) [OF wf]
    by (simp add: XGate_apply_def getNumQubits_def permute_def)
qed

lemma HadamardGate_apply_eq:
  assumes wf: "wf_state st" and t: "0 \<le> t" "t < int (num_qubits st)"
  shows "HadamardGate_apply t st =
    (None, st\<lparr>amplitudes :=
       map (\<lambda>k. if bit k (nat t)
                 then (amplitudes st ! unset_bit (nat t) k - amplitudes st ! k) * INV_SQRT2
                 else (amplitudes st ! k + amplitudes st ! set_bit (nat t) k) * INV_SQRT2)
         [0..<state_size st]\<rparr>)"
proof -
  let ?n = "num_qubits st" and ?old = "amplitudes st"
  let ?new = "map (\<lambda>k. if bit k (nat t)
                 then (?old ! unset_bit (nat t) k - ?old ! k) * INV_SQRT2
                 else (?old ! k + ?old ! set_bit (nat t) k) * INV_SQRT2) [0..<2 ^ ?n]"
  have tn: "nat t < ?n" using t by simp
  have "for_loop (pair_step (\<lambda>amp0 amp1. (amp0 + amp1) * INV_SQRT2)
                            (\<lambda>amp0 amp1. (amp0 - amp1) * INV_SQRT2) (push_bit (nat t) 1) ?old)
          [0..<2 ^ ?n] (replicate (2 ^ ?n) 0) = Some ?new"
    using pair_loop [OF tn wf_stateD(4) [OF wf] _ le_refl, of "replicate (2 ^ ?n) 0"]
    by (simp add: unset_bit_lt cong: map_cong)
  moreover have "commit ?new [0..<state_size st] st = (None, st\<lparr>amplitudes := ?new\<rparr>)"
    using wf by (intro commit_all) (simp_all add: wf_state_def)
  ultimately show ?thesis
    using t wf_stateD(3) [OF wf]
    by (simp add: HadamardGate_apply_def getNumQubits_def)
qed

lemma scatter_gate:
  assumes wf: "wf_state st"
    and d: "\<And>i. i < 2 ^ num_qubits st \<Longrightarrow> cond i \<Longrightarrow>
               d i < 2 ^ num_qubits st \<and> cond (d i) \<and> d (d i) = i"
  shows "(case for_loop (scatter_step cond (\<lambda>i. int (d i)) (amplitudes st))
                 [0..<state_size st] (amplitudes st) of
            None \<Rightarrow> (Some Fault, st)
          | Some new_amplitudes \<Rightarrow> commit new_amplitudes [0..<state_size st] st)
         = (None, permute (\<lambda>k. if cond k then d k else k) st)"
proof -
  let ?n = "num_qubits st" and ?old = "amplitudes st"
  let ?new = "map (\<lambda>k. if cond k then ?old ! d k else ?old ! k) [0..<2 ^ ?n]"
  have "for_loop (scatter_step cond (\<lambda>i. int (d i)) ?old) [0..<2 ^ ?n] ?old = Some ?new"
    using scatter_loop_invol [OF wf_stateD(4) [OF wf], of cond d] d by simp
  moreover have "commit ?new [0..<state_size st] st = (None, st\<lparr>amplitudes := ?new\<rparr>)"
    using wf by (intro commit_all) (simp_all add: wf_state_def)
  moreover have "?new = map (\<lambda>k. ?old ! (if cond k then d k else k)) [0..<2 ^ ?n]"
    by simp
  ultimately show ?thesis
    using wf_stateD(3) [OF wf] by (simp add: permute_def)
qed

lemma CNOTGate_apply_eq:
  assumes wf: "wf_state st" and c: "0 \<le> c" "c < int (num_qubits st)"
    and t: "0 \<le> t" "t < int (num_qubits st)" and ne: "c \<noteq> t"
  shows "CNOTGate_apply c t st = (None, permute (source_index (CNOTGate c t)) st)"
proof -
  have ne': "nat c \<noteq> nat t" using c t ne by simp
  have tn: "nat t < num_qubits st" using t by simp
  have "(case for_loop (scatter_step (\<lambda>i. bit i (nat c)) (\<lambda>i. int (flip_bit (nat t) i))
                 (amplitudes st)) [0..<state_size st] (amplitudes st) of
            None \<Rightarrow> (Some Fault, st)
          | Some new_amplitudes \<Rightarrow> commit new_amplitudes [0..<state_size st] st)
         = (None, permute (\<lambda>k. if bit k (nat c) then flip_bit (nat t) k else k) st)"
    using ne' tn by (intro scatter_gate [OF wf]) (auto simp: flip_bit_lt bit_flip_bit_iff)
  moreover have "source_index (CNOTGate c t) = (\<lambda>k. if bit k (nat c) then flip_bit (nat t) k else k)"
    by (rule ext) simp
  ultimately show ?thesis
    using c t by (simp add: CNOTGate_apply_def getNumQubits_def Let_def)
qed

lemma ToffoliGate_apply_eq:
  assumes wf: "wf_state st" and c: "0 \<le> c1" "c1 < int (num_qubits st)"
      "0 \<le> c2" "c2 < int (num_qubits st)"
    and t: "0 \<le> t" "t < int (num_qubits st)" and ne: "c1 \<noteq> t" "c2 \<noteq> t"
  shows "ToffoliGate_apply c1 c2 t st = (None, permute (source_index (ToffoliGate c1 c2 t)) st)"
proof -
  have ne': "nat c1 \<noteq> nat t" "nat c2 \<noteq> nat t" using c t ne by simp_all
  have tn: "nat t < num_qubits st" using t by simp
  have "(case for_loop (scatter_step (\<lambda>i. bit i (nat c1) \<and> bit i (nat c2))
                 (\<lambda>i. int (flip_bit (nat t) i))
                 (amplitudes st)) [0..<state_size st] (amplitudes st) of
            None \<Rightarrow> (Some Fault, st)
          | Some new_amplitudes \<Rightarrow> commit new_amplitudes [0..<state_size st] st)
         = (None, permute (\<lambda>k. if bit k (nat c1) \<and> bit k (nat c2) then flip_bit (nat t) k else k) st)"
    using ne' tn by (intro scatter_gate [OF wf]) (auto simp: flip_bit_lt bit_flip_bit_iff)
  moreover have "source_index (ToffoliGate c1 c2 t) =
      (\<lambda>k. if bit k (nat c1) \<and> bit k (nat c2) then flip_bit (nat t) k else k)"
    by (rule ext) simp
  ultimately show ?thesis
    using c t by (simp add: ToffoliGate_apply_def getNumQubits_def Let_def)
qed

lemma SWAPGate_apply_eq:
  assumes wf: "wf_state st" and q: "0 \<le> q1" "q1 < int (num_qubits st)"
      "0 \<le> q2" "q2 < int (num_qubits st)"
  shows "SWAPGate_apply q1 q2 st = (None, permute (source_index (SWAPGate q1 q2)) st)"
proof -
  let ?n = "num_qubits st" and ?old = "amplitudes st"
  let ?new = "map (\<lambda>k. ?old ! source_index (SWAPGate q1 q2) k) [0..<2 ^ ?n]"
  have qn: "nat q1 < ?n" "nat q2 < ?n" using q by simp_all
  have "for_loop (swap_step (push_bit (nat q1) 1) (push_bit (nat q2) 1) ?old) [0..<2 ^ ?n] ?old
          = Some ?new"
    using swap_loop [OF wf_stateD(4) [OF wf] wf_stateD(4) [OF wf] qn le_refl]
    by (simp cong: map_cong)
  moreover have "commit ?new [0..<state_size st] st = (None, st\<lparr>amplitudes := ?new\<rparr>)"
    using wf by (intro commit_all) (simp_all add: wf_state_def)
  ultimately show ?thesis
    using q wf_stateD(3) [OF wf]
    by (simp add: SWAPGate_apply_def getNumQubits_def permute_def)
qed


lemma permute_gate_apply:
  assumes "wf_state st" "constructed g" "self_inverse_kind g" "fits g st"
  shows "apply_gate g st = (None, permute (source_index g) st)"
proof (cases g)
  case (CNOTGate c t)
  then show ?thesis
    using assms CNOTGate_apply_eq [of st c t]
    by (simp add: new_CNOTGate_def getNumQubits_def split: if_splits)
next
  case (SWAPGate q1 q2)
  then show ?thesis
    using assms SWAPGate_apply_eq [of st q1 q2]
    by (simp add: new_SWAPGate_def getNumQubits_def split: if_splits)
next
  case (ToffoliGate c1 c2 t)
  then show ?thesis
    using assms ToffoliGate_apply_eq [of st c1 c2 t]
    by (simp add: new_ToffoliGate_def getNumQubits_def split: if_splits)
next
  case (XGate t)
  have "source_index (XGate t) = flip_bit (nat t)" by (rule ext) simp
  then show ?thesis
    using assms XGate XGate_apply_eq [of st t]
    by (simp add: new_XGate_def getNumQubits_def split: if_splits)
qed (use assms in simp_all)

lemma source_index_lt:
  assumes "constructed g" "fits g st" "k < 2 ^ num_qubits st"
  shows "source_index g k < 2 ^ num_qubits st"
  using assms
  by (cases g)
     (auto simp: getNumQubits_def flip_bit_lt new_CNOTGate_def new_SWAPGate_def
        new_ToffoliGate_def new_XGate_def split: if_splits)

lemma source_index_invol:
  assumes "constructed g"
  shows "source_index g (source_index g k) = k"
proof (cases g)
  case (CNOTGate c t)
  then have "nat c \<noteq> nat t" using assms by (auto simp: new_CNOTGate_def split: if_splits)
  then show ?thesis using CNOTGate by (simp add: bit_flip_bit_iff)
next
  case (SWAPGate q1 q2)
  then have ne: "nat q1 \<noteq> nat q2" using assms by (auto simp: new_SWAPGate_def split: if_splits)
  have "flip_bit (nat q2) (flip_bit (nat q1) (flip_bit (nat q2) (flip_bit (nat q1) k))) = k"
    by (rule bit_eqI) (auto simp: bit_flip_bit_iff)
  then show ?thesis using SWAPGate ne by (auto simp: bit_flip_bit_iff)
next
  case (ToffoliGate c1 c2 t)
  then have "nat c1 \<noteq> nat t" "nat c2 \<noteq> nat t"
    using assms by (auto simp: new_ToffoliGate_def split: if_splits)
  then show ?thesis using ToffoliGate by (auto simp: bit_flip_bit_iff)
qed simp_all

lemma wf_permute: "wf_state st \<Longrightarrow> wf_state (permute f st)"
  by (simp add: wf_state_def permute_def)

lemma fits_permute: "fits g (permute f st) = fits g st"
  by (cases g) (simp_all add: permute_def getNumQubits_def)

lemma permute_twice:
  assumes "wf_state st" "\<And>k. k < state_size st \<Longrightarrow> f k < state_size st"
    "\<And>k. f (f k) = k"
  shows "permute f (permute f st) = st"
proof -
  have "map (\<lambda>k. map (\<lambda>k. amplitudes st ! f k) [0..<state_size st] ! f k) [0..<state_size st]
        = map (\<lambda>k. amplitudes st ! k) [0..<state_size st]"
    using assms(2,3) by (intro map_cong) simp_all
  also have "\<dots> = amplitudes st"
    using assms(1) by (metis map_nth wf_state_def)
  finally show ?thesis by (simp add: permute_def)
qed

text \<open>
  Claim C6. For each of PauliX, ControlledNot, SWAP and Toffoli, on every store whose qubit
  count the gate's indices fit, applying the gate twice returns normally and leaves exactly
  the original store: every amplitude is equal to the one before, not just close to it.
\<close>

theorem self_inverse_twice:
  assumes "wf_state st" "constructed g" "self_inverse_kind g" "fits g st"
  shows "and_then (apply_gate g) (apply_gate g) st = (None, st)"
proof -
  have 1: "apply_gate g st = (None, permute (source_index g) st)"
    using assms by (rule permute_gate_apply)
  have 2: "apply_gate g (permute (source_index g) st)
             = (None, permute (source_index g) (permute (source_index g) st))"
    using assms by (intro permute_gate_apply) (simp_all add: wf_permute fits_permute)
  have "permute (source_index g) (permute (source_index g) st) = st"
    using assms source_index_lt [of g st] source_index_invol [of g]
    by (intro permute_twice) (simp_all add: wf_state_def)
  then show ?thesis using 1 2 by (simp add: and_then_def)
qed

theorem self_inverse_twice_witness:
  "wf_state (basis_state 2 1) \<and> constructed (CNOTGate 0 1) \<and> self_inverse_kind (CNOTGate 0 1)
   \<and> fits (CNOTGate 0 1) (basis_state 2 1)
   \<and> and_then (apply_gate (CNOTGate 0 1)) (apply_gate (CNOTGate 0 1)) (basis_state 2 1)
       = (None, basis_state 2 1)"
proof -
  have h: "wf_state (basis_state 2 1)" "constructed (CNOTGate 0 1)"
    "self_inverse_kind (CNOTGate 0 1)" "fits (CNOTGate 0 1) (basis_state 2 1)"
    by (simp_all add: wf_state_def basis_state_def new_CNOTGate_def getNumQubits_def)
  show ?thesis using h self_inverse_twice [OF h] by simp
qed

section \<open>Hadamard\<close>





lemma Hadamard_apply_amps:
  assumes "wf_state st" "0 \<le> t" "t < int (num_qubits st)"
  shows "HadamardGate_apply t st =
           (None, st\<lparr>amplitudes := hadamard_amps (state_size st) (nat t) (amplitudes st)\<rparr>)"
  using HadamardGate_apply_eq [OF assms] by (simp add: hadamard_amps_def)





section \<open>Total probability\<close>















section \<open>Errors\<close>

lemma QuantumState_new_invalid: "QuantumState_new n = Inl (Thrown InvalidArgument) \<longleftrightarrow> n \<le> 0"
  by (simp add: QuantumState_new_def Let_def)

lemma shift_in_range:
  assumes "0 < n" "n \<le> 30"
  shows "signed_take_bit 31 (push_bit (nat n) (1::int)) = 2 ^ nat n"
proof -
  have "(2::int) ^ nat n < 2 ^ 31"
    using assms by (intro power_strict_increasing) simp_all
  moreover have "- (2 ^ 31) \<le> (2::int) ^ nat n"
    by (rule order_trans [of _ 0]) simp_all
  ultimately have "signed_take_bit 31 ((2::int) ^ nat n) = 2 ^ nat n"
    by (simp add: signed_take_bit_int_eq_self)
  then show ?thesis by (simp add: push_bit_eq_mult)
qed

lemma QuantumState_new_ok:
  assumes "0 < n" "n \<le> 30"
  shows "QuantumState_new n =
           Inr \<lparr>amplitudes = (replicate (2 ^ nat n) 0)[0 := 1],
                num_qubits = nat n, state_size = 2 ^ nat n\<rparr>"
proof -
  have e: "nat ((2::int) ^ nat n) = (2::nat) ^ nat n" by (simp add: nat_power_eq)
  show ?thesis
    unfolding QuantumState_new_def Let_def shift_in_range [OF assms] e
    using assms by simp
qed

lemma getAmplitude_range:
  "state_size st = 2 ^ num_qubits st \<Longrightarrow>
     getAmplitude st index = Inl (Thrown OutOfRange) \<longleftrightarrow> index < 0 \<or> 2 ^ num_qubits st \<le> index"
  by (auto simp: getAmplitude_def split: option.splits)

lemma setAmplitude_range:
  "state_size st = 2 ^ num_qubits st \<Longrightarrow>
     fst (setAmplitude index v st) = Some (Thrown OutOfRange)
       \<longleftrightarrow> index < 0 \<or> 2 ^ num_qubits st \<le> index"
  by (auto simp: setAmplitude_def split: option.splits)

text \<open>
  Claim C8 as stated fails at \<open>allocate(31)\<close>: \<open>1 << 31\<close> is not \<open>2 ^ 31\<close> in an \<open>int\<close>,
  no store of \<open>2 ^ 31\<close> amplitudes is created, and the failure is not InvalidArgument.
  It also fails for ControlledModularMultiply with control \<open>INT_MAX\<close> and a target field of
  one qubit at \<open>INT_MAX\<close>: the control qubit is the qubit of the field, but the sum
  \<open>target_start + target_count\<close> wraps around to \<open>INT_MIN\<close> and the gate is constructed.
\<close>

theorem allocate_counterexample:
  "QuantumState_new 31 = Inl (Thrown LengthError) \<and>
   (2147483647::int) \<le> 2147483647 \<and> (2147483647::int) < 2147483647 + 1 \<and>
   new_ControlledModMultGate 2147483647 2147483647 1 3 4
     = Inr (ControlledModMultGate 2147483647 2147483647 1 3 4)"
  by (simp add: QuantumState_new_def new_ControlledModMultGate_def int_add_def)

text \<open>
  Claim C8, amended. \<open>allocate(n)\<close> fails with InvalidArgument exactly when \<open>n \<le> 0\<close>; for
  \<open>1 \<le> n \<le> 30\<close> it creates \<open>2 ^ n\<close> amplitudes, 1 at index 0 and 0 elsewhere. On a store
  of \<open>2 ^ n\<close> amplitudes, get and set fail with OutOfRange exactly when the index is outside
  \<open>[0, 2 ^ n)\<close>. Construction of a gate fails with InvalidArgument for every negative qubit
  index, for ControlledNot with control = target, SWAP with q1 = q2, Toffoli with any two
  of its three indices equal, ControlledModularMultiply with multiplier or modulus 0, or with
  the control qubit inside a target field whose end \<open>target_start + target_count\<close> does not
  exceed \<open>INT_MAX\<close>, and for an Adder or Comparator with a negative register start.
\<close>

theorem error_conditions:
  "(QuantumState_new n = Inl (Thrown InvalidArgument) \<longleftrightarrow> n \<le> 0) \<and>
   (0 < n \<and> n \<le> 30 \<longrightarrow>
      QuantumState_new n = Inr \<lparr>amplitudes = (replicate (2 ^ nat n) 0)[0 := 1],
                                num_qubits = nat n, state_size = 2 ^ nat n\<rparr>) \<and>
   (state_size st = 2 ^ num_qubits st \<longrightarrow>
      (getAmplitude st index = Inl (Thrown OutOfRange)
         \<longleftrightarrow> index < 0 \<or> 2 ^ num_qubits st \<le> index) \<and>
      (fst (setAmplitude index v st) = Some (Thrown OutOfRange)
         \<longleftrightarrow> index < 0 \<or> 2 ^ num_qubits st \<le> index)) \<and>
   (q < 0 \<longrightarrow>
      new_HadamardGate q = Inl InvalidArgument \<and> new_XGate q = Inl InvalidArgument \<and>
      new_PhaseShiftGate q angle cos_angle sin_angle = Inl InvalidArgument \<and>
      new_CNOTGate q q2 = Inl InvalidArgument \<and> new_CNOTGate q1 q = Inl InvalidArgument \<and>
      new_SWAPGate q q2 = Inl InvalidArgument \<and> new_SWAPGate q1 q = Inl InvalidArgument \<and>
      new_ToffoliGate q q2 q3 = Inl InvalidArgument \<and>
      new_ToffoliGate q1 q q3 = Inl InvalidArgument \<and>
      new_ToffoliGate q1 q2 q = Inl InvalidArgument \<and>
      new_ControlledModMultGate q ts tc mult md = Inl InvalidArgument \<and>
      new_ControlledModMultGate c q tc mult md = Inl InvalidArgument \<and>
      new_QuantumAdder q b cs nb = Inl InvalidArgument \<and>
      new_QuantumAdder a q cs nb = Inl InvalidArgument \<and>
      new_QuantumAdder a b q nb = Inl InvalidArgument \<and>
      new_QuantumComparator q b rs nb anc = Inl InvalidArgument \<and>
      new_QuantumComparator a q rs nb anc = Inl InvalidArgument \<and>
      new_QuantumComparator a b q nb anc = Inl InvalidArgument) \<and>
   new_CNOTGate q1 q1 = Inl InvalidArgument \<and>
   new_SWAPGate q1 q1 = Inl InvalidArgument \<and>
   (q1 = q2 \<or> q1 = q3 \<or> q2 = q3 \<longrightarrow> new_ToffoliGate q1 q2 q3 = Inl InvalidArgument) \<and>
   (mult = 0 \<or> md = 0 \<longrightarrow> new_ControlledModMultGate c ts tc mult md = Inl InvalidArgument) \<and>
   (ts' \<le> c' \<and> c' < ts' + tc' \<and> ts' + tc' \<le> 2147483647 \<longrightarrow>
      new_ControlledModMultGate c' ts' tc' mult' md' = Inl InvalidArgument)"
proof -
  have neg: "q < 0 \<longrightarrow>
      new_HadamardGate q = Inl InvalidArgument \<and> new_XGate q = Inl InvalidArgument \<and>
      new_PhaseShiftGate q angle cos_angle sin_angle = Inl InvalidArgument \<and>
      new_CNOTGate q q2 = Inl InvalidArgument \<and> new_CNOTGate q1 q = Inl InvalidArgument \<and>
      new_SWAPGate q q2 = Inl InvalidArgument \<and> new_SWAPGate q1 q = Inl InvalidArgument \<and>
      new_ToffoliGate q q2 q3 = Inl InvalidArgument \<and>
      new_ToffoliGate q1 q q3 = Inl InvalidArgument \<and>
      new_ToffoliGate q1 q2 q = Inl InvalidArgument \<and>
      new_ControlledModMultGate q ts tc mult md = Inl InvalidArgument \<and>
      new_ControlledModMultGate c q tc mult md = Inl InvalidArgument \<and>
      new_QuantumAdder q b cs nb = Inl InvalidArgument \<and>
      new_QuantumAdder a q cs nb = Inl InvalidArgument \<and>
      new_QuantumAdder a b q nb = Inl InvalidArgument \<and>
      new_QuantumComparator q b rs nb anc = Inl InvalidArgument \<and>
      new_QuantumComparator a q rs nb anc = Inl InvalidArgument \<and>
      new_QuantumComparator a b q nb anc = Inl InvalidArgument"
    by (simp add: new_HadamardGate_def new_XGate_def new_PhaseShiftGate_def new_CNOTGate_def
        new_SWAPGate_def new_ToffoliGate_def new_ControlledModMultGate_def
        new_QuantumAdder_def new_QuantumComparator_def)
  have dup: "new_CNOTGate q1 q1 = Inl InvalidArgument" "new_SWAPGate q1 q1 = Inl InvalidArgument"
    "q1 = q2 \<or> q1 = q3 \<or> q2 = q3 \<longrightarrow> new_ToffoliGate q1 q2 q3 = Inl InvalidArgument"
    by (auto simp: new_CNOTGate_def new_SWAPGate_def new_ToffoliGate_def)
  have cmm: "mult = 0 \<or> md = 0 \<longrightarrow> new_ControlledModMultGate c ts tc mult md = Inl InvalidArgument"
    by (auto simp: new_ControlledModMultGate_def)
  have inside: "ts' \<le> c' \<and> c' < ts' + tc' \<and> ts' + tc' \<le> 2147483647 \<longrightarrow>
      new_ControlledModMultGate c' ts' tc' mult' md' = Inl InvalidArgument"
  proof
    assume a: "ts' \<le> c' \<and> c' < ts' + tc' \<and> ts' + tc' \<le> 2147483647"
    show "new_ControlledModMultGate c' ts' tc' mult' md' = Inl InvalidArgument"
    proof (cases "c' < 0 \<or> ts' < 0 \<or> tc' \<le> 0")
      case True
      then show ?thesis by (simp add: new_ControlledModMultGate_def)
    next
      case False
      then have "int_add ts' tc' = ts' + tc'"
        using a by (intro int_add_eq) simp_all
      then show ?thesis using a by (simp add: new_ControlledModMultGate_def)
    qed
  qed
  show ?thesis
    using QuantumState_new_invalid [of n] QuantumState_new_ok [of n]
      getAmplitude_range [of st index] setAmplitude_range [of st index v] neg dup cmm inside
    by blast
qed

theorem error_conditions_witness:
  "(QuantumState_new 3 = Inl (Thrown InvalidArgument) \<longleftrightarrow> (3::int) \<le> 0) \<and>
   (0 < (3::int) \<and> (3::int) \<le> 30) \<and>
   QuantumState_new 3 = Inr \<lparr>amplitudes = [1, 0, 0, 0, 0, 0, 0, 0], num_qubits = 3, state_size = 8\<rparr> \<and>
   state_size (basis_state 1 0) = 2 ^ num_qubits (basis_state 1 0) \<and>
   getAmplitude (basis_state 1 0) 2 = Inl (Thrown OutOfRange) \<and>
   fst (setAmplitude 2 1 (basis_state 1 0)) = Some (Thrown OutOfRange) \<and>
   (-1 :: int) < 0 \<and> new_HadamardGate (-1) = Inl InvalidArgument \<and>
   new_ControlledModMultGate 0 (-1) 2 3 0 = Inl InvalidArgument \<and>
   new_CNOTGate 0 0 = Inl InvalidArgument \<and>
   ((0::int) = 1 \<or> (0::int) = 0 \<or> (1::int) = 0) \<and> new_ToffoliGate 0 1 0 = Inl InvalidArgument \<and>
   ((3 :: 64 word) = 0 \<or> (0 :: 64 word) = 0) \<and>
   new_ControlledModMultGate 0 1 2 3 0 = Inl InvalidArgument \<and>
   (0::int) \<le> 1 \<and> (1::int) < 0 + 2 \<and> (0::int) + 2 \<le> 2147483647 \<and>
   new_ControlledModMultGate 1 0 2 3 4 = Inl InvalidArgument"
proof -
  have s: "state_size (basis_state 1 0) = 2 ^ num_qubits (basis_state 1 0)"
    by (simp add: basis_state_def)
  have r: "(replicate (2 ^ nat 3) (0::complex))[0 := 1] = [1, 0, 0, 0, 0, 0, 0, 0]"
    by (simp add: eval_nat_numeral)
  show ?thesis
    using error_conditions [where n = 3 and st = "basis_state 1 0" and index = 2 and v = 1
        and q = "-1" and ?q1.0 = 0 and ?q2.0 = 1 and ?q3.0 = 0 and c = 0 and ts = 1 and tc = 2
        and mult = 3 and md = 0 and angle = 0 and cos_angle = 1 and sin_angle = 0 and a = 0 and b = 0 and cs = 0 and nb = 1
        and rs = 0 and anc = 0 and c' = 1 and ts' = 0 and tc' = 2 and mult' = 3 and md' = 4]
      s r
    by (simp add: basis_state_def)
qed

section \<open>The index arithmetic of ControlledModMultGate\<close>

lemma bit_replace_field:
  "bit (replace_field ts tc i v) q \<longleftrightarrow>
     (if ts \<le> q \<and> q < ts + tc then bit v (q - ts) else bit i q)"
  by (auto simp: replace_field_def bit_simps)

lemma field_value_replace_field:
  "field_value ts tc (replace_field ts tc i v) = take_bit tc v"
  by (rule bit_eqI) (auto simp: field_value_def bit_replace_field bit_simps)

lemma replace_field_lt:
  assumes "ts + tc \<le> n" "i < 2 ^ n"
  shows "replace_field ts tc i v < 2 ^ n"
  using assms by (auto simp: nat_lt_pow2_bit bit_replace_field split: if_splits)

lemma extractTarget_unat:
  assumes "tc \<le> 30"
  shows "unat (extractTarget (int ts) (int tc) i) = field_value ts tc i"
proof -
  have "extractTarget (int ts) (int tc) i = take_bit tc (word_of_nat (drop_bit ts i))"
    by (simp add: extractTarget_def take_bit_eq_mask mask_eq_exp_minus_1)
  also have "\<dots> = word_of_nat (take_bit tc (drop_bit ts i))"
    by (rule bit_eqI) (auto simp: bit_simps)
  finally have "unat (extractTarget (int ts) (int tc) i)
      = take_bit 64 (take_bit tc (drop_bit ts i))"
    by (simp add: unsigned_of_nat)
  also have "\<dots> = take_bit tc (drop_bit ts i)"
    using assms(1) by (simp add: min_def)
  finally show ?thesis by (simp add: field_value_def)
qed

lemma word_bit_lt: fixes v :: "64 word" assumes "unat v < 2 ^ tc" shows "bit v q \<Longrightarrow> q < tc"
proof -
  assume "bit v q"
  then have "bit (unat v) q" by (simp add: bit_unsigned_iff)
  then show ?thesis using assms nat_lt_pow2_bit [of "unat v" tc] by blast
qed

lemma field_mask_word: "(push_bit tc 1 - 1 :: 64 word) = mask tc"
  by (simp add: mask_eq_exp_minus_1)

lemma bit_field_mask_uint:
  assumes "ts + tc \<le> 30"
  shows "bit (uint (push_bit ts (mask tc :: 64 word))) q \<longleftrightarrow> ts \<le> q \<and> q < ts + tc"
  using assms by (auto simp: bit_uint_iff bit_push_bit_iff bit_mask_iff)

lemma bit_field_mask_int:
  assumes "ts + tc \<le> 30"
  shows "bit (signed_take_bit 31 (uint (push_bit ts (push_bit tc 1 - 1 :: 64 word)))) q
           \<longleftrightarrow> ts \<le> q \<and> q < ts + tc"
  unfolding field_mask_word bit_signed_take_bit_iff bit_field_mask_uint [OF assms]
  using assms by (auto simp: min_def)

lemma replaceTarget_word:
  fixes v :: "64 word"
  assumes "ts + tc \<le> 30" "\<And>q. bit i q \<Longrightarrow> q < 30" "\<And>q. bit v q \<Longrightarrow> q < tc"
  shows "(word_of_int (int i AND NOT (signed_take_bit 31
            (uint (push_bit ts (push_bit tc 1 - 1 :: 64 word))))) :: 64 word) OR push_bit ts v
         = word_of_nat (replace_field ts tc i (unat v))"
proof (rule bit_eqI)
  fix q
  have 1: "bit (push_bit ts v) q \<longleftrightarrow> ts \<le> q \<and> q < ts + tc \<and> bit v (q - ts)"
    using assms(1) assms(3) [of "q - ts"]
    by (auto simp: bit_push_bit_iff dest: bit_imp_possible_bit)
  have 2: "bit (word_of_nat (replace_field ts tc i (unat v)) :: 64 word) q
        \<longleftrightarrow> (if ts \<le> q \<and> q < ts + tc then bit v (q - ts) else bit i q)"
    using assms(1) assms(2) [of q]
    by (auto simp: bit_of_nat_iff bit_replace_field bit_unsigned_iff
        dest: bit_imp_possible_bit)
  have 3: "bit (word_of_int (int i AND NOT (signed_take_bit 31
            (uint (push_bit ts (push_bit tc 1 - 1 :: 64 word))))) :: 64 word) q
        \<longleftrightarrow> bit i q \<and> \<not> (ts \<le> q \<and> q < ts + tc)"
    unfolding bit_word_of_int_iff bit_and_iff bit_not_iff bit_field_mask_int [OF assms(1)]
      bit_of_nat_iff
    using assms(2) [of q] by auto
  show "bit ((word_of_int (int i AND NOT (signed_take_bit 31
            (uint (push_bit ts (push_bit tc 1 - 1 :: 64 word))))) :: 64 word) OR push_bit ts v) q
      = bit (word_of_nat (replace_field ts tc i (unat v)) :: 64 word) q"
    unfolding bit_or_iff 1 2 3 by auto
qed

lemma replaceTarget_eq:
  fixes v :: "64 word"
  assumes "ts + tc \<le> n" "n \<le> 30" "i < 2 ^ n" "unat v < 2 ^ tc"
  shows "replaceTarget (int ts) (int tc) i v = int (replace_field ts tc i (unat v))"
proof -
  let ?r = "replace_field ts tc i (unat v)"
  have ib: "\<And>q. bit i q \<Longrightarrow> q < 30"
    using assms(2,3) nat_lt_pow2_bit [of i n] by fastforce
  have t30: "ts + tc \<le> 30" using assms(1,2) by simp
  have r: "?r < 2 ^ n"
    using assms(1,3) by (rule replace_field_lt)
  have t64: "take_bit 64 ?r = ?r"
  proof (rule take_bit_nat_eq_self)
    have "(2::nat) ^ n \<le> 2 ^ 64" using assms(2) by (intro power_increasing) simp_all
    then show "?r < 2 ^ 64" using r by (rule less_le_trans [rotated])
  qed
  have s31: "signed_take_bit 31 (int ?r) = int ?r"
  proof (rule signed_take_bit_int_eq_self)
    show "- (2 ^ 31) \<le> int ?r" by (rule order_trans [of _ 0]) simp_all
    have "(2::nat) ^ n \<le> 2 ^ 31" using assms(2) by (intro power_increasing) simp_all
    then have "?r < 2 ^ 31" using r by (rule less_le_trans [rotated])
    then have "int ?r < int (2 ^ 31)" by (rule iffD2 [OF of_nat_less_iff])
    then show "int ?r < 2 ^ 31" by simp
  qed
  have "uint (word_of_nat ?r :: 64 word) = int (take_bit 64 ?r)"
    by (simp add: unsigned_of_nat)
  then have e: "signed_take_bit 31 (uint (word_of_nat ?r :: 64 word)) = int ?r"
    unfolding t64 using s31 by simp
  have W: "(word_of_int (int i AND NOT (signed_take_bit 31
            (uint (push_bit ts (push_bit tc 1 - 1 :: 64 word))))) :: 64 word) OR push_bit ts v
         = word_of_nat ?r"
    using t30 ib word_bit_lt [OF assms(4)] by (rule replaceTarget_word)
  show ?thesis
    unfolding replaceTarget_def Let_def nat_int by (simp only: W e)
qed

lemma cmm_new_value_unat:
  fixes y :: "64 word"
  shows "unat ((mult * y) mod md) = cmm_new_value mult md (unat y)"
  by (simp add: cmm_new_value_def unat_mod unat_word_ariths)

lemma cmm_new_value_lt: "md \<noteq> 0 \<Longrightarrow> cmm_new_value mult md y < unat md"
  by (simp add: cmm_new_value_def unat_gt_0)

lemma cmm_dest_eq:
  assumes "0 \<le> ts" "0 \<le> tc" "nat ts + nat tc \<le> n" "n \<le> 30" "i < 2 ^ n"
    "md \<noteq> 0" "unat md \<le> 2 ^ nat tc"
  shows "cmm_dest ts tc mult md i = int (cmm_target ts tc mult md i)"
proof -
  let ?y = "extractTarget ts tc i"
  let ?v = "(mult * ?y) mod md"
  have tc30: "nat tc \<le> 30" using assms(3,4) by simp
  have y: "unat ?y = field_value (nat ts) (nat tc) i"
    using extractTarget_unat [OF tc30, of "nat ts" i] assms(1,2) by simp
  have v: "unat ?v = cmm_new_value mult md (field_value (nat ts) (nat tc) i)"
    by (simp add: cmm_new_value_unat y)
  have vlt: "unat ?v < 2 ^ nat tc"
    using cmm_new_value_lt [OF assms(6)] assms(7) unfolding v by (rule less_le_trans)
  have "replaceTarget (int (nat ts)) (int (nat tc)) i ?v
          = int (replace_field (nat ts) (nat tc) i (unat ?v))"
    using assms(3,4,5) vlt by (rule replaceTarget_eq)
  then show ?thesis
    using assms(1,2) unfolding cmm_dest_def Let_def cmm_target_def v by simp
qed

lemma cmm_target_lt:
  assumes "nat ts + nat tc \<le> n" "i < 2 ^ n"
  shows "cmm_target ts tc mult md i < 2 ^ n"
  unfolding cmm_target_def using assms by (rule replace_field_lt)

lemma bit_cmm_target_outside:
  assumes "\<not> (nat ts \<le> q \<and> q < nat ts + nat tc)"
  shows "bit (cmm_target ts tc mult md i) q = bit i q"
  using assms by (auto simp: cmm_target_def bit_replace_field)

lemma field_cmm_target:
  assumes "md \<noteq> 0" "unat md \<le> 2 ^ nat tc"
  shows "field_value (nat ts) (nat tc) (cmm_target ts tc mult md i)
           = cmm_new_value mult md (field_value (nat ts) (nat tc) i)"
proof -
  have "cmm_new_value mult md (field_value (nat ts) (nat tc) i) < 2 ^ nat tc"
    using cmm_new_value_lt [OF assms(1)] assms(2) by (rule less_le_trans)
  then show ?thesis
    by (simp add: cmm_target_def field_value_replace_field take_bit_nat_eq_self)
qed

text \<open>What \<open>ControlledModMultGate::apply\<close> does when the modulus fits the field.\<close>

lemma cmm_apply_fits:
  assumes wf: "wf_state st"
    and par: "0 \<le> c" "0 \<le> ts" "0 < tc" "md \<noteq> 0" "\<not> (ts \<le> c \<and> c < ts + tc)"
    and fit: "c < int (num_qubits st)" "ts + tc \<le> int (num_qubits st)"
    and md: "unat md \<le> 2 ^ nat tc"
  shows "\<exists>r. ControlledModMultGate_apply c ts tc mult md st = (None, st\<lparr>amplitudes := r\<rparr>) \<and>
          length r = 2 ^ num_qubits st \<and>
          (\<forall>i < 2 ^ num_qubits st. bit i (nat c) \<longrightarrow>
             cmm_dest ts tc mult md i = int (cmm_target ts tc mult md i) \<and>
             cmm_target ts tc mult md i < 2 ^ num_qubits st \<and>
             bit (cmm_target ts tc mult md i) (nat c)) \<and>
          (\<forall>k < 2 ^ num_qubits st.
             (\<forall>i < 2 ^ num_qubits st. bit i (nat c) \<longrightarrow> cmm_target ts tc mult md i \<noteq> k) \<longrightarrow>
             r ! k = amplitudes st ! k) \<and>
          (\<forall>i < 2 ^ num_qubits st. bit i (nat c) \<longrightarrow>
             (\<forall>i' < 2 ^ num_qubits st. i < i' \<longrightarrow> bit i' (nat c) \<longrightarrow>
                cmm_target ts tc mult md i' \<noteq> cmm_target ts tc mult md i) \<longrightarrow>
             r ! cmm_target ts tc mult md i = amplitudes st ! i)"
proof -
  let ?n = "num_qubits st" and ?old = "amplitudes st"
  let ?d = "cmm_dest ts tc mult md" and ?e = "cmm_target ts tc mult md"
  have n30: "?n \<le> 30" and sz: "state_size st = 2 ^ ?n" and len: "length ?old = 2 ^ ?n"
    using wf by (simp_all add: wf_state_def)
  have tt: "nat ts + nat tc \<le> ?n" using par fit by simp
  have de: "?d i = int (?e i)" if "i < 2 ^ ?n" for i
    using par(2) _ tt n30 that par(4) md by (rule cmm_dest_eq) (use par(3) in simp)
  have elt: "?e i < 2 ^ ?n" if "i < 2 ^ ?n" for i
    using tt that by (rule cmm_target_lt)
  have cb: "bit (?e i) (nat c) = bit i (nat c)" for i
    using par by (intro bit_cmm_target_outside) auto
  obtain r where r: "for_loop (scatter_step (\<lambda>i. bit i (nat c)) ?d ?old) [0..<2 ^ ?n] ?old = Some r"
    "length r = 2 ^ ?n"
    "\<forall>k<2 ^ ?n. (\<forall>i<2 ^ ?n. bit i (nat c) \<longrightarrow> ?d i \<noteq> int k) \<longrightarrow> r ! k = ?old ! k"
    "\<forall>i<2 ^ ?n. bit i (nat c) \<longrightarrow>
        (\<forall>i'<2 ^ ?n. i < i' \<longrightarrow> bit i' (nat c) \<longrightarrow> ?d i' \<noteq> ?d i) \<longrightarrow>
        r ! nat (?d i) = ?old ! i"
    using scatter_loop [of ?old "2 ^ ?n" ?old "\<lambda>i. bit i (nat c)" ?d "2 ^ ?n"] len de elt
    by auto
  have sum: "int_add ts tc = ts + tc"
    using fit(2) par(2,3) n30 by (intro int_add_small) simp_all
  have app: "ControlledModMultGate_apply c ts tc mult md st = (None, st\<lparr>amplitudes := r\<rparr>)"
    using fit r(1,2) len sz commit_all [of r st]
    by (simp add: ControlledModMultGate_apply_def getNumQubits_def Let_def sum)
  have 1: "\<forall>i < 2 ^ ?n. bit i (nat c) \<longrightarrow>
             ?d i = int (?e i) \<and> ?e i < 2 ^ ?n \<and> bit (?e i) (nat c)"
    using de elt cb by simp
  have 2: "\<forall>k < 2 ^ ?n. (\<forall>i < 2 ^ ?n. bit i (nat c) \<longrightarrow> ?e i \<noteq> k) \<longrightarrow> r ! k = ?old ! k"
    using r(3) de by simp
  have 3: "\<forall>i < 2 ^ ?n. bit i (nat c) \<longrightarrow>
             (\<forall>i' < 2 ^ ?n. i < i' \<longrightarrow> bit i' (nat c) \<longrightarrow> ?e i' \<noteq> ?e i) \<longrightarrow>
             r ! ?e i = ?old ! i"
  proof (intro allI impI)
    fix i assume i: "i < 2 ^ ?n" "bit i (nat c)"
      and h: "\<forall>i' < 2 ^ ?n. i < i' \<longrightarrow> bit i' (nat c) \<longrightarrow> ?e i' \<noteq> ?e i"
    have "\<forall>i'<2 ^ ?n. i < i' \<longrightarrow> bit i' (nat c) \<longrightarrow> ?d i' \<noteq> ?d i"
      using h de i(1) by simp
    then have "r ! nat (?d i) = ?old ! i" using r(4) i by blast
    then show "r ! ?e i = ?old ! i" using de [OF i(1)] by simp
  qed
  show ?thesis using app r(2) 1 2 3 by blast
qed

lemma cmm_constructedD:
  assumes "constructed (ControlledModMultGate c ts tc mult md)"
  shows "0 \<le> c" "0 \<le> ts" "0 < tc" "md \<noteq> 0" "mult \<noteq> 0"
    "\<not> (ts \<le> c \<and> c < int_add ts tc)"
  using assms by (auto simp: new_ControlledModMultGate_def split: if_splits)

text \<open>
  Claim C9. \<open>apply\<close> of ControlledModularMultiply validates the control qubit and the
  extent of the target field, never the modulus. When \<open>modulus \<le> 2 ^ targetCount\<close>, every
  destination index it computes lies in \<open>[0, 2 ^ n)\<close> and \<open>apply\<close> returns normally: no
  access leaves the vectors. When \<open>modulus > 2 ^ targetCount\<close> this can fail: with control 0,
  a field of 1 bit at bit 1, multiplier 2 and modulus 3 on a 2-qubit store, index 3 has the
  control bit set and destination 5, outside \<open>[0, 4)\<close>, and \<open>apply\<close> writes outside the
  vector without raising anything.
\<close>

theorem cmm_destination_bounds:
  "(wf_state st \<and> constructed (ControlledModMultGate c ts tc mult md) \<and>
    fits (ControlledModMultGate c ts tc mult md) st \<and> unat md \<le> 2 ^ nat tc \<longrightarrow>
      (\<forall>i < 2 ^ num_qubits st. bit i (nat c) \<longrightarrow>
         0 \<le> cmm_dest ts tc mult md i \<and> cmm_dest ts tc mult md i < 2 ^ num_qubits st) \<and>
      fst (apply_gate (ControlledModMultGate c ts tc mult md) st) = None) \<and>
   (wf_state (basis_state 2 3) \<and> constructed (ControlledModMultGate 0 1 1 2 3) \<and>
    fits (ControlledModMultGate 0 1 1 2 3) (basis_state 2 3) \<and>
    2 ^ nat 1 < unat (3 :: 64 word) \<and> bit (3 :: nat) (nat 0) \<and>
    cmm_dest 1 1 2 3 3 = 5 \<and> (5 :: int) \<ge> 2 ^ num_qubits (basis_state 2 3) \<and>
    apply_gate (ControlledModMultGate 0 1 1 2 3) (basis_state 2 3)
      = (Some Fault, basis_state 2 3))"
proof (intro conjI impI)
  assume h: "wf_state st \<and> constructed (ControlledModMultGate c ts tc mult md) \<and>
    fits (ControlledModMultGate c ts tc mult md) st \<and> unat md \<le> 2 ^ nat tc"
  then have wf: "wf_state st" and md: "unat md \<le> 2 ^ nat tc"
    and fit: "c < int (num_qubits st)" "ts + tc \<le> int (num_qubits st)"
    by (simp_all add: getNumQubits_def)
  note par = cmm_constructedD [of c ts tc mult md]
  have "num_qubits st \<le> 30" using wf by (simp add: wf_state_def)
  then have "int_add ts tc = ts + tc"
    using fit(2) par(2,3) h by (intro int_add_small) simp_all
  then have out: "\<not> (ts \<le> c \<and> c < ts + tc)"
    using par(6) h by simp
  obtain r where r: "ControlledModMultGate_apply c ts tc mult md st = (None, st\<lparr>amplitudes := r\<rparr>)"
    "\<forall>i < 2 ^ num_qubits st. bit i (nat c) \<longrightarrow>
             cmm_dest ts tc mult md i = int (cmm_target ts tc mult md i) \<and>
             cmm_target ts tc mult md i < 2 ^ num_qubits st \<and>
             bit (cmm_target ts tc mult md i) (nat c)"
    using cmm_apply_fits [OF wf par(1,2,3,4) out fit md] h by blast
  show "\<forall>i < 2 ^ num_qubits st. bit i (nat c) \<longrightarrow>
         0 \<le> cmm_dest ts tc mult md i \<and> cmm_dest ts tc mult md i < 2 ^ num_qubits st"
  proof (intro allI impI)
    fix i :: nat assume i: "i < 2 ^ num_qubits st" "bit i (nat c)"
    then have e: "cmm_dest ts tc mult md i = int (cmm_target ts tc mult md i)"
      and l: "cmm_target ts tc mult md i < 2 ^ num_qubits st"
      using r(2) by simp_all
    have "int (cmm_target ts tc mult md i) < int (2 ^ num_qubits st)"
      using l by (rule iffD2 [OF of_nat_less_iff])
    then show "0 \<le> cmm_dest ts tc mult md i \<and> cmm_dest ts tc mult md i < 2 ^ num_qubits st"
      unfolding e by simp
  qed
  show "fst (apply_gate (ControlledModMultGate c ts tc mult md) st) = None"
    using r(1) by simp
next
  show "wf_state (basis_state 2 3)" "constructed (ControlledModMultGate 0 1 1 2 3)"
    "fits (ControlledModMultGate 0 1 1 2 3) (basis_state 2 3)"
    "2 ^ nat 1 < unat (3 :: 64 word)" "bit (3 :: nat) (nat 0)" "cmm_dest 1 1 2 3 3 = 5"
    "(5 :: int) \<ge> 2 ^ num_qubits (basis_state 2 3)"
    by code_simp+
  show "apply_gate (ControlledModMultGate 0 1 1 2 3) (basis_state 2 3)
      = (Some Fault, basis_state 2 3)"
    unfolding apply_gate.simps by code_simp
qed

theorem cmm_destination_bounds_witness:
  "wf_state (basis_state 3 7) \<and> constructed (ControlledModMultGate 0 1 2 2 3) \<and>
   fits (ControlledModMultGate 0 1 2 2 3) (basis_state 3 7) \<and>
   unat (3 :: 64 word) \<le> 2 ^ nat 2 \<and>
   (7 :: nat) < 2 ^ num_qubits (basis_state 3 7) \<and> bit (7 :: nat) (nat 0) \<and>
   0 \<le> cmm_dest 1 2 2 3 7 \<and> cmm_dest 1 2 2 3 7 < 2 ^ num_qubits (basis_state 3 7) \<and>
   fst (apply_gate (ControlledModMultGate 0 1 2 2 3) (basis_state 3 7)) = None"
proof -
  have h: "wf_state (basis_state 3 7) \<and> constructed (ControlledModMultGate 0 1 2 2 3) \<and>
   fits (ControlledModMultGate 0 1 2 2 3) (basis_state 3 7) \<and>
   unat (3 :: 64 word) \<le> 2 ^ nat 2"
    by code_simp
  have i: "(7 :: nat) < 2 ^ num_qubits (basis_state 3 7)" "bit (7 :: nat) (nat 0)"
    by code_simp+
  have "(\<forall>i < 2 ^ num_qubits (basis_state 3 7). bit i (nat 0) \<longrightarrow>
         0 \<le> cmm_dest 1 2 2 3 i \<and> cmm_dest 1 2 2 3 i < 2 ^ num_qubits (basis_state 3 7)) \<and>
      fst (apply_gate (ControlledModMultGate 0 1 2 2 3) (basis_state 3 7)) = None"
    using cmm_destination_bounds [of "basis_state 3 7" 0 1 2 2 3] h by blast
  then show ?thesis using h i by blast
qed

text \<open>
  Claim C4 at control 0, a target field of 2 bits at bit 1, multiplier 1 and modulus 3, on
  the 3-qubit basis state of index 1. Multiplier and modulus have greatest common divisor 1,
  the case for which the source says the gate is reversible. Index 1 has the control bit set
  and field value 0, and its destination is index 1 itself (\<open>1 * 0 mod 3 = 0\<close>): by the claim
  its amplitude 1 is moved there. Index 7 (field value 3, \<open>1 * 3 mod 3 = 0\<close>) has the same
  destination and is copied later: \<open>apply\<close> returns normally and leaves amplitude 0 at
  every index.
\<close>

theorem cmm_multiplier_1_modulus_3:
  "gcd_loop 1 3 = 1 \<and>
   wf_state (basis_state 3 1) \<and> constructed (ControlledModMultGate 0 1 2 1 3) \<and>
   fits (ControlledModMultGate 0 1 2 1 3) (basis_state 3 1) \<and>
   bit (1 :: nat) (nat 0) \<and> extractTarget 1 2 1 = 0 \<and> cmm_dest 1 2 1 3 1 = 1 \<and>
   bit (7 :: nat) (nat 0) \<and> extractTarget 1 2 7 = 3 \<and> cmm_dest 1 2 1 3 7 = 1 \<and>
   amplitudes (basis_state 3 1) = [0, 1, 0, 0, 0, 0, 0, 0] \<and>
   apply_gate (ControlledModMultGate 0 1 2 1 3) (basis_state 3 1)
     = (None, \<lparr>amplitudes = [0, 0, 0, 0, 0, 0, 0, 0], num_qubits = 3, state_size = 8\<rparr>)"
  unfolding apply_gate.simps by code_simp

section \<open>Gates on basis states\<close>

lemma wf_basis_state: "0 < n \<Longrightarrow> n \<le> 30 \<Longrightarrow> wf_state (basis_state n k)"
  by (simp add: wf_state_def basis_state_def)

lemma permute_basis_state:
  assumes "k < 2 ^ n" "\<And>j. j < 2 ^ n \<Longrightarrow> f j < 2 ^ n" "\<And>j. f (f j) = j"
  shows "permute f (basis_state n k) = basis_state n (f k)"
proof -
  have "map (\<lambda>j. (replicate (2 ^ n) (0::complex))[k := 1] ! f j) [0..<2 ^ n]
          = (replicate (2 ^ n) 0)[f k := 1]"
  proof (rule nth_equalityI)
    fix j assume "j < length (map (\<lambda>j. (replicate (2 ^ n) (0::complex))[k := 1] ! f j) [0..<2 ^ n])"
    then have j: "j < 2 ^ n" by simp
    have "f j = k \<longleftrightarrow> j = f k" using assms(3) by metis
    then show "map (\<lambda>j. (replicate (2 ^ n) (0::complex))[k := 1] ! f j) [0..<2 ^ n] ! j
          = (replicate (2 ^ n) 0)[f k := 1] ! j"
      using j assms(1) assms(2) [OF j] assms(2) [OF assms(1)]
      by (auto simp: nth_list_update)
  qed simp
  then show ?thesis by (simp add: permute_def basis_state_def)
qed

lemma fits_basis_state:
  "fits g (basis_state n k) = fits g (basis_state n 0)"
  by (cases g) (simp_all add: getNumQubits_def basis_state_def)

lemma apply_gate_basis:
  assumes "0 < n" "n \<le> 30" "k < 2 ^ n" "constructed g" "self_inverse_kind g"
    "fits g (basis_state n k)"
  shows "apply_gate g (basis_state n k) = (None, basis_state n (source_index g k))"
    and "source_index g k < 2 ^ n"
proof -
  have wf: "wf_state (basis_state n k)" using assms(1,2) by (rule wf_basis_state)
  have nq: "num_qubits (basis_state n k) = n" by (simp add: basis_state_def)
  have lt: "\<And>j. j < 2 ^ n \<Longrightarrow> source_index g j < 2 ^ n"
    using source_index_lt [OF assms(4,6)] nq by simp
  show "source_index g k < 2 ^ n" using lt assms(3) by simp
  show "apply_gate g (basis_state n k) = (None, basis_state n (source_index g k))"
    using permute_gate_apply [OF wf assms(4,5,6)]
      permute_basis_state [OF assms(3) lt source_index_invol [OF assms(4)]]
    by simp
qed

lemma gate_loop_basis:
  assumes "\<And>i k. i \<in> set is \<Longrightarrow> k < 2 ^ n \<Longrightarrow>
             body i (basis_state n k) = (None, basis_state n (f i k)) \<and> f i k < 2 ^ n"
    and "k < 2 ^ n"
  shows "gate_loop body is (basis_state n k) = (None, basis_state n (fold f is k))
         \<and> fold f is k < 2 ^ n"
  using assms
proof (induction "is" arbitrary: k)
  case Nil
  then show ?case by simp
next
  case (Cons i "is")
  have 1: "body i (basis_state n k) = (None, basis_state n (f i k))" "f i k < 2 ^ n"
    using Cons.prems(1) [of i k] Cons.prems(2) by simp_all
  have 2: "gate_loop body is (basis_state n (f i k))
             = (None, basis_state n (fold f is (f i k))) \<and> fold f is (f i k) < 2 ^ n"
    using Cons.prems(1) 1(2) by (intro Cons.IH) simp_all
  show ?case using 1 2 by (simp add: and_then_def)
qed

lemma construct_apply_basis:
  assumes "0 < n" "n \<le> 30" "k < 2 ^ n" "c = Inr g" "constructed g" "self_inverse_kind g"
    "fits g (basis_state n k)"
  shows "construct_apply c (basis_state n k) = (None, basis_state n (source_index g k))"
  using apply_gate_basis(1) [OF assms(1,2,3,5,6,7)] assms(4)
  by (simp add: construct_apply_def)

lemma toffoli_basis:
  assumes "0 < n" "n \<le> 30" "k < 2 ^ n"
    "0 \<le> c1" "0 \<le> c2" "0 \<le> t" "c1 < int n" "c2 < int n" "t < int n"
    "c1 \<noteq> c2" "c1 \<noteq> t" "c2 \<noteq> t"
  shows "construct_apply (new_ToffoliGate c1 c2 t) (basis_state n k)
           = (None, basis_state n (source_index (ToffoliGate c1 c2 t) k))"
    and "source_index (ToffoliGate c1 c2 t) k < 2 ^ n"
proof -
  have c: "new_ToffoliGate c1 c2 t = Inr (ToffoliGate c1 c2 t)"
    using assms by (simp add: new_ToffoliGate_def)
  have f: "fits (ToffoliGate c1 c2 t) (basis_state n k)"
    using assms by (simp add: getNumQubits_def basis_state_def)
  show "construct_apply (new_ToffoliGate c1 c2 t) (basis_state n k)
           = (None, basis_state n (source_index (ToffoliGate c1 c2 t) k))"
    using assms(1,2,3) c _ _ f by (rule construct_apply_basis) (simp_all add: c)
  show "source_index (ToffoliGate c1 c2 t) k < 2 ^ n"
    using assms(1,2,3) _ _ f by (rule apply_gate_basis(2)) (simp_all add: c)
qed

lemma cnot_basis:
  assumes "0 < n" "n \<le> 30" "k < 2 ^ n"
    "0 \<le> c" "0 \<le> t" "c < int n" "t < int n" "c \<noteq> t"
  shows "construct_apply (new_CNOTGate c t) (basis_state n k)
           = (None, basis_state n (source_index (CNOTGate c t) k))"
    and "source_index (CNOTGate c t) k < 2 ^ n"
proof -
  have c: "new_CNOTGate c t = Inr (CNOTGate c t)"
    using assms by (simp add: new_CNOTGate_def)
  have f: "fits (CNOTGate c t) (basis_state n k)"
    using assms by (simp add: getNumQubits_def basis_state_def)
  show "construct_apply (new_CNOTGate c t) (basis_state n k)
           = (None, basis_state n (source_index (CNOTGate c t) k))"
    using assms(1,2,3) c _ _ f by (rule construct_apply_basis) (simp_all add: c)
  show "source_index (CNOTGate c t) k < 2 ^ n"
    using assms(1,2,3) _ _ f by (rule apply_gate_basis(2)) (simp_all add: c)
qed

lemma x_basis:
  assumes "0 < n" "n \<le> 30" "k < 2 ^ n" "0 \<le> t" "t < int n"
  shows "construct_apply (new_XGate t) (basis_state n k)
           = (None, basis_state n (source_index (XGate t) k))"
    and "source_index (XGate t) k < 2 ^ n"
proof -
  have c: "new_XGate t = Inr (XGate t)"
    using assms by (simp add: new_XGate_def)
  have f: "fits (XGate t) (basis_state n k)"
    using assms by (simp add: getNumQubits_def basis_state_def)
  show "construct_apply (new_XGate t) (basis_state n k)
           = (None, basis_state n (source_index (XGate t) k))"
    using assms(1,2,3) c _ _ f by (rule construct_apply_basis) (simp_all add: c)
  show "source_index (XGate t) k < 2 ^ n"
    using assms(1,2,3) _ _ f by (rule apply_gate_basis(2)) (simp_all add: c)
qed

section \<open>Ripple-carry arithmetic\<close>

text \<open>The carry into bit \<open>j\<close> of \<open>A + B\<close>.\<close>

lemma low_sum_lt: "take_bit j (A::nat) + take_bit j B < 2 ^ Suc j"
proof -
  have "take_bit j A < 2 ^ j" "take_bit j B < 2 ^ j" by simp_all
  then have "take_bit j A + take_bit j B < 2 ^ j + 2 ^ j" by (rule add_strict_mono)
  then show ?thesis by simp
qed

lemma bit_top_iff:
  fixes s :: nat
  assumes "s < 2 ^ Suc j"
  shows "bit s j \<longleftrightarrow> 2 ^ j \<le> s"
proof -
  have "s div 2 ^ j < 2" using assms by (simp add: less_mult_imp_div_less)
  then have "s div 2 ^ j = 0 \<or> s div 2 ^ j = 1" by auto
  moreover have "s div 2 ^ j = 0 \<longleftrightarrow> s < 2 ^ j" by (simp add: div_eq_0_iff)
  ultimately show ?thesis by (auto simp: bit_iff_odd)
qed

lemma low_sum_Suc:
  "take_bit (Suc j) (A::nat) + take_bit (Suc j) B
     = (take_bit j A + take_bit j B) + 2 ^ j * (of_bool (bit A j) + of_bool (bit B j))"
  by (simp add: take_bit_Suc_from_most algebra_simps)

lemma carry_Suc:
  fixes A B :: nat
  shows "bit (take_bit (Suc j) A + take_bit (Suc j) B) (Suc j) \<longleftrightarrow>
           ((bit A j \<and> bit B j) \<noteq> (bit A j \<and> bit (take_bit j A + take_bit j B) j))
             \<noteq> (bit B j \<and> bit (take_bit j A + take_bit j B) j)"
proof -
  let ?s = "take_bit j A + take_bit j B"
  have s: "?s < 2 ^ Suc j" by (rule low_sum_lt)
  have c: "bit ?s j \<longleftrightarrow> 2 ^ j \<le> ?s" using s by (rule bit_top_iff)
  have t: "bit (take_bit (Suc j) A + take_bit (Suc j) B) (Suc j)
             \<longleftrightarrow> 2 ^ Suc j \<le> take_bit (Suc j) A + take_bit (Suc j) B"
    by (rule bit_top_iff) (rule low_sum_lt)
  have "2 ^ Suc j \<le> take_bit (Suc j) A + take_bit (Suc j) B \<longleftrightarrow>
          ((bit A j \<and> bit B j) \<noteq> (bit A j \<and> 2 ^ j \<le> ?s)) \<noteq> (bit B j \<and> 2 ^ j \<le> ?s)"
    unfolding low_sum_Suc using s by (cases "bit A j"; cases "bit B j") auto
  then show ?thesis
    unfolding t c .
qed

lemma sum_bit:
  fixes A B :: nat
  shows "bit (A + B) j \<longleftrightarrow>
           (bit A j \<noteq> bit B j) \<noteq> bit (take_bit j A + take_bit j B) j"
proof -
  let ?s = "take_bit j A + take_bit j B"
  have s: "?s < 2 ^ Suc j" by (rule low_sum_lt)
  have c: "bit ?s j \<longleftrightarrow> 2 ^ j \<le> ?s" using s by (rule bit_top_iff)
  have "bit (A + B) j = bit (take_bit (Suc j) (A + B)) j"
    by (simp add: bit_take_bit_iff)
  also have "take_bit (Suc j) (A + B)
               = take_bit (Suc j) (take_bit (Suc j) A + take_bit (Suc j) B)"
    by (simp add: take_bit_add)
  also have "bit \<dots> j = bit (take_bit (Suc j) A + take_bit (Suc j) B) j"
    by (simp add: bit_take_bit_iff)
  also have "\<dots> = odd ((?s + 2 ^ j * (of_bool (bit A j) + of_bool (bit B j))) div 2 ^ j)"
    unfolding low_sum_Suc by (simp add: bit_iff_odd)
  also have "(?s + 2 ^ j * (of_bool (bit A j) + of_bool (bit B j))) div 2 ^ j
               = ?s div 2 ^ j + (of_bool (bit A j) + of_bool (bit B j))"
    by simp
  also have "odd (?s div 2 ^ j + (of_bool (bit A j) + of_bool (bit B j)))
               \<longleftrightarrow> (bit A j \<noteq> bit B j) \<noteq> bit ?s j"
    by (cases "bit A j"; cases "bit B j") (auto simp: bit_iff_odd)
  finally show ?thesis .
qed

lemma carry_out_iff:
  fixes A B :: nat
  assumes "A < 2 ^ m" "B < 2 ^ m"
  shows "bit (take_bit m A + take_bit m B) m \<longleftrightarrow> 2 ^ m \<le> A + B"
proof -
  have "take_bit m A = A" "take_bit m B = B" using assms by (simp_all add: take_bit_nat_eq_self)
  then show ?thesis using bit_top_iff [OF low_sum_lt, of m A B] by simp
qed

section \<open>The adder on basis states\<close>

lemma bit_toffoli_index:
  "bit (source_index (ToffoliGate c1 c2 t) k) q =
     (if q = nat t then bit k q \<noteq> (bit k (nat c1) \<and> bit k (nat c2)) else bit k q)"
  by (auto simp: bit_flip_bit_iff)

lemma bit_cnot_index:
  "bit (source_index (CNOTGate c t) k) q =
     (if q = nat t then bit k q \<noteq> bit k (nat c) else bit k q)"
  by (auto simp: bit_flip_bit_iff)

lemma bit_x_index:
  "bit (source_index (XGate t) k) q = (if q = nat t then \<not> bit k q else bit k q)"
  by (auto simp: bit_flip_bit_iff)

lemma bit_field_value: "bit (field_value s c k) j \<longleftrightarrow> j < c \<and> bit k (s + j)"
  by (auto simp: field_value_def bit_take_bit_iff bit_drop_bit_eq)

lemma bit_adder_step_index:
  assumes "pa \<noteq> pb" "pa \<noteq> pc" "pa \<noteq> pd" "pb \<noteq> pc" "pb \<noteq> pd" "pc \<noteq> pd"
    and "pa = nat (a + int i)" "pb = nat (b + int i)" "pc = nat (cs + int i)"
      "pd = nat (cs + int i + 1)"
  shows "bit (adder_step_index a b cs i k) q =
     (if q = pd then
        bit k pd \<noteq> (((bit k pa \<and> bit k pb) \<noteq> (bit k pa \<and> bit k pc)) \<noteq> (bit k pb \<and> bit k pc))
      else if q = pb then (bit k pb \<noteq> bit k pa) \<noteq> bit k pc
      else bit k q)"
  unfolding adder_step_index_def Let_def bit_cnot_index bit_toffoli_index
    assms(7-10) [symmetric]
  using assms(1-6) by auto

lemma adder_fold_bits:
  fixes k :: nat and a b cs nb :: int
  defines "A \<equiv> field_value (nat a) (nat nb) k" and "B \<equiv> field_value (nat b) (nat nb) k"
  assumes pos: "0 \<le> a" "0 \<le> b" "0 \<le> cs"
    and dis: "no_overlap a nb b nb" "no_overlap a nb cs (nb + 1)" "no_overlap b nb cs (nb + 1)"
    and zero: "\<And>q. nat cs \<le> q \<Longrightarrow> q \<le> nat cs + nat nb \<Longrightarrow> \<not> bit k q"
    and m: "m \<le> nat nb"
  shows "bit (fold (adder_step_index a b cs) [0..<m] k) q =
     (if nat b \<le> q \<and> q < nat b + m then bit (A + B) (q - nat b)
      else if nat cs < q \<and> q \<le> nat cs + m
        then bit (take_bit (q - nat cs) A + take_bit (q - nat cs) B) (q - nat cs)
      else bit k q)"
  using m
proof (induction m arbitrary: q)
  case 0
  then show ?case by auto
next
  case (Suc m)
  let ?K = "fold (adder_step_index a b cs) [0..<m] k"
  let ?pa = "nat a + m" and ?pb = "nat b + m" and ?pc = "nat cs + m" and ?pd = "nat cs + m + 1"
  have mn: "m < nat nb" using Suc.prems by simp
  then have nbpos: "0 \<le> nb" by simp
  have IH: "\<And>q. bit ?K q =
     (if nat b \<le> q \<and> q < nat b + m then bit (A + B) (q - nat b)
      else if nat cs < q \<and> q \<le> nat cs + m
        then bit (take_bit (q - nat cs) A + take_bit (q - nat cs) B) (q - nat cs)
      else bit k q)"
    using Suc by simp
  have d: "no_overlap (int (nat a)) (int (nat nb)) (int (nat b)) (int (nat nb))"
    "no_overlap (int (nat a)) (int (nat nb)) (int (nat cs)) (int (nat nb) + 1)"
    "no_overlap (int (nat b)) (int (nat nb)) (int (nat cs)) (int (nat nb) + 1)"
    using dis pos nbpos by simp_all
  have ne: "?pa \<noteq> ?pb" "?pa \<noteq> ?pc" "?pa \<noteq> ?pd" "?pb \<noteq> ?pc" "?pb \<noteq> ?pd" "?pc \<noteq> ?pd"
    using d mn unfolding no_overlap_def by linarith+
  have eq: "?pa = nat (a + int m)" "?pb = nat (b + int m)" "?pc = nat (cs + int m)"
    "?pd = nat (cs + int m + 1)"
    using pos by simp_all
  have IH0: "bit ?K p = bit k p"
    if "\<not> (nat b \<le> p \<and> p < nat b + m)" "\<not> (nat cs < p \<and> p \<le> nat cs + m)" for p
    using that by (simp only: IH if_not_P if_False)
  have fa: "bit A m = bit k ?pa" and fb: "bit B m = bit k ?pb"
    using mn by (simp_all add: A_def B_def bit_field_value)
  have ka: "bit ?K ?pa = bit A m"
  proof -
    have "\<not> (nat b \<le> ?pa \<and> ?pa < nat b + m)" "\<not> (nat cs < ?pa \<and> ?pa \<le> nat cs + m)"
      using d mn unfolding no_overlap_def by linarith+
    then show ?thesis unfolding fa by (rule IH0)
  qed
  have kb: "bit ?K ?pb = bit B m"
  proof -
    have "\<not> (nat b \<le> ?pb \<and> ?pb < nat b + m)" "\<not> (nat cs < ?pb \<and> ?pb \<le> nat cs + m)"
      using d mn unfolding no_overlap_def by linarith+
    then show ?thesis unfolding fb by (rule IH0)
  qed
  have kc: "bit ?K ?pc = bit (take_bit m A + take_bit m B) m"
  proof (cases m)
    case 0
    have "\<not> bit k (nat cs)" by (rule zero) simp_all
    moreover have "\<not> (nat b \<le> nat cs \<and> nat cs < nat b + m)"
      "\<not> (nat cs < nat cs \<and> nat cs \<le> nat cs + m)"
      using 0 by linarith+
    then have "bit ?K (nat cs) = bit k (nat cs)" by (rule IH0)
    ultimately show ?thesis using 0 by simp
  next
    case (Suc m')
    have n1: "\<not> (nat b \<le> ?pc \<and> ?pc < nat b + m)"
      using d mn unfolding no_overlap_def by linarith
    have y: "nat cs < ?pc \<and> ?pc \<le> nat cs + m" using Suc by simp
    have "bit ?K ?pc = bit (take_bit (?pc - nat cs) A + take_bit (?pc - nat cs) B) (?pc - nat cs)"
      using n1 y by (simp only: IH if_not_P if_P if_False if_True)
    then show ?thesis by simp
  qed
  have kd: "\<not> bit ?K ?pd"
  proof -
    have "\<not> (nat b \<le> ?pd \<and> ?pd < nat b + m)" "\<not> (nat cs < ?pd \<and> ?pd \<le> nat cs + m)"
      using d mn unfolding no_overlap_def by linarith+
    then have "bit ?K ?pd = bit k ?pd" by (rule IH0)
    moreover have "\<not> bit k ?pd" using mn by (intro zero) simp_all
    ultimately show ?thesis by simp
  qed
  have step: "fold (adder_step_index a b cs) [0..<Suc m] k = adder_step_index a b cs m ?K"
    by simp
  have bits: "bit (adder_step_index a b cs m ?K) q =
     (if q = ?pd then
        bit (take_bit (Suc m) A + take_bit (Suc m) B) (Suc m)
      else if q = ?pb then bit (A + B) m
      else bit ?K q)"
    unfolding bit_adder_step_index [OF ne eq] ka kb kc carry_Suc sum_bit [of A B m]
    using kd by auto
  show ?case
  proof -
    consider "q = ?pd" | "q = ?pb" | "q \<noteq> ?pd" "q \<noteq> ?pb" by blast
    then show ?thesis
    proof cases
      case 1
      have c1: "\<not> (nat b \<le> q \<and> q < nat b + Suc m)"
        using 1 d mn unfolding no_overlap_def by linarith
      have c2: "nat cs < q \<and> q \<le> nat cs + Suc m" using 1 by simp
      have c3: "q - nat cs = Suc m" using 1 by simp
      have "bit (adder_step_index a b cs m ?K) q
              = bit (take_bit (Suc m) A + take_bit (Suc m) B) (Suc m)"
        unfolding bits using 1 by (simp only: if_P if_True if_False)
      then show ?thesis unfolding step using c1 c2 c3 by (simp only: if_not_P if_P if_True if_False)
    next
      case 2
      have c1: "nat b \<le> q \<and> q < nat b + Suc m" using 2 by simp
      have c3: "q - nat b = m" using 2 by simp
      have "q \<noteq> ?pd" using 2 ne by simp
      then have "bit (adder_step_index a b cs m ?K) q = bit (A + B) m"
        unfolding bits using 2 by (simp only: if_not_P if_P if_True if_False)
      then show ?thesis unfolding step using c1 c3 by (simp only: if_P if_True if_False)
    next
      case 3
      have e1: "(nat b \<le> q \<and> q < nat b + Suc m) = (nat b \<le> q \<and> q < nat b + m)"
        using 3 by auto
      have e2: "(nat cs < q \<and> q \<le> nat cs + Suc m) = (nat cs < q \<and> q \<le> nat cs + m)"
        using 3 by auto
      have "bit (adder_step_index a b cs m ?K) q = bit ?K q"
        unfolding bits using 3 by (simp only: if_not_P if_True if_False)
      then show ?thesis unfolding step e1 e2 IH .
    qed
  qed
qed

lemma and_then_None: "f st = (None, st') \<Longrightarrow> and_then f g st = g st'"
  by (simp add: and_then_def)

lemma QuantumAdder_body_basis:
  assumes n: "0 < n" "n \<le> 30" and k: "k < 2 ^ n"
    and pos: "0 \<le> a" "0 \<le> b" "0 \<le> cs"
    and fit: "a + int i < int n" "b + int i < int n" "cs + int i + 1 < int n"
    and ne: "a + int i \<noteq> b + int i" "a + int i \<noteq> cs + int i" "a + int i \<noteq> cs + int i + 1"
      "b + int i \<noteq> cs + int i" "b + int i \<noteq> cs + int i + 1"
  shows "QuantumAdder_body a b cs i (basis_state n k)
           = (None, basis_state n (adder_step_index a b cs i k))
         \<and> adder_step_index a b cs i k < 2 ^ n"
proof -
  let ?pa = "a + int i" and ?pb = "b + int i" and ?pc = "cs + int i" and ?pd = "cs + int i + 1"
  let ?k1 = "source_index (ToffoliGate ?pa ?pb ?pd) k"
  let ?k2 = "source_index (ToffoliGate ?pa ?pc ?pd) ?k1"
  let ?k3 = "source_index (ToffoliGate ?pb ?pc ?pd) ?k2"
  let ?k4 = "source_index (CNOTGate ?pa ?pb) ?k3"
  let ?k5 = "source_index (CNOTGate ?pc ?pb) ?k4"
  have p: "0 \<le> ?pa" "0 \<le> ?pb" "0 \<le> ?pc" "0 \<le> ?pd" "?pc < int n" "?pc \<noteq> ?pd"
    using pos fit by simp_all
  note 1 = toffoli_basis [OF n k p(1) p(2) p(4) fit(1) fit(2) fit(3) ne(1) ne(3) ne(5)]
  note 2 = toffoli_basis [OF n 1(2) p(1) p(3) p(4) fit(1) p(5) fit(3) ne(2) ne(3) p(6)]
  note 3 = toffoli_basis [OF n 2(2) p(2) p(3) p(4) fit(2) p(5) fit(3) ne(4) ne(5) p(6)]
  note 4 = cnot_basis [OF n 3(2) p(1) p(2) fit(1) fit(2) ne(1)]
  note 5 = cnot_basis [OF n 4(2) p(3) p(2) p(5) fit(2) ne(4) [symmetric]]
  have e: "int_add a (int i) = ?pa" "int_add b (int i) = ?pb" "int_add cs (int i) = ?pc"
    "int_add (cs + int i) 1 = ?pd"
    using pos fit n(2) by (auto intro!: int_add_small)
  have "QuantumAdder_body a b cs i (basis_state n k) = (None, basis_state n ?k5)"
    unfolding QuantumAdder_body_def Let_def e
    by (simp only: and_then_def 1(1) 2(1) 3(1) 4(1) 5(1) prod.simps option.simps)
  moreover have "adder_step_index a b cs i k = ?k5"
    unfolding adder_step_index_def Let_def ..
  ultimately show ?thesis using 5(2) by simp
qed

lemma QuantumAdder_apply_basis:
  assumes n: "0 < n" "n \<le> 30" and k: "k < 2 ^ n"
    and pos: "0 \<le> a" "0 \<le> b" "0 \<le> cs" "0 < nb"
    and fit: "a + nb \<le> int n" "b + nb \<le> int n" "cs + nb + 1 \<le> int n"
    and dis: "no_overlap a nb b nb" "no_overlap a nb cs (nb + 1)" "no_overlap b nb cs (nb + 1)"
  shows "QuantumAdder_apply a b cs nb (basis_state n k)
           = (None, basis_state n (adder_index a b cs nb k))
         \<and> adder_index a b cs nb k < 2 ^ n"
proof -
  have body: "QuantumAdder_body a b cs i (basis_state n k')
           = (None, basis_state n (adder_step_index a b cs i k'))
         \<and> adder_step_index a b cs i k' < 2 ^ n"
    if "i \<in> set [0..<nat nb]" "k' < 2 ^ n" for i k'
  proof -
    have i: "int i < nb" using that(1) by simp
    show ?thesis
      using n that(2) pos(1-3)
    proof (rule QuantumAdder_body_basis)
      show "a + int i < int n" "b + int i < int n" "cs + int i + 1 < int n"
        using i fit by simp_all
      show "a + int i \<noteq> b + int i" "a + int i \<noteq> cs + int i" "a + int i \<noteq> cs + int i + 1"
        "b + int i \<noteq> cs + int i" "b + int i \<noteq> cs + int i + 1"
        using i dis pos unfolding no_overlap_def by linarith+
    qed
  qed
  have "gate_loop (QuantumAdder_body a b cs) [0..<nat nb] (basis_state n k)
          = (None, basis_state n (fold (adder_step_index a b cs) [0..<nat nb] k))
        \<and> fold (adder_step_index a b cs) [0..<nat nb] k < 2 ^ n"
    using body k by (rule gate_loop_basis)
  moreover have "int_add a nb = a + nb" "int_add b nb = b + nb" "int_add cs nb = cs + nb"
    "int_add (cs + nb) 1 = cs + nb + 1"
    using pos fit n(2) by (auto intro!: int_add_small)
  ultimately show ?thesis
    using fit
    by (simp add: QuantumAdder_apply_def adder_index_def getNumQubits_def basis_state_def)
qed

lemma field_value_zero_bits:
  assumes "field_value s c k = 0" "s \<le> q" "q < s + c"
  shows "\<not> bit k q"
proof
  assume "bit k q"
  then have "bit (field_value s c k) (q - s)"
    using assms(2,3) by (simp add: bit_field_value)
  then show False using assms(1) by simp
qed

lemma field_value_lt: "field_value s c k < 2 ^ c"
  by (simp add: field_value_def)

text \<open>
  Claim C2. On a basis state \<open>k\<close> of a store of \<open>n\<close> qubits in which the registers A and B
  (\<open>num_bits\<close> wide) and Carry (\<open>num_bits + 1\<close> wide) lie within the store, do not overlap,
  and Carry is all zero, the adder returns normally and leaves the basis state \<open>k'\<close> in
  which A holds what it held, B holds \<open>(a + b) mod 2 ^ num_bits\<close>, the last carry qubit
  \<open>Carry[num_bits]\<close> is 1 exactly when \<open>a + b\<close> carries out of \<open>num_bits\<close> bits, and every
  qubit outside B and Carry (hence all of A) is as it was.
\<close>

theorem adder_on_basis_state:
  assumes "0 < n" "n \<le> 30" "k < 2 ^ n"
    and "new_QuantumAdder a_start b_start carry_start num_bits
           = Inr (a_start, b_start, carry_start, num_bits)"
    and "a_start + num_bits \<le> int n" "b_start + num_bits \<le> int n"
      "carry_start + num_bits + 1 \<le> int n"
    and "no_overlap a_start num_bits b_start num_bits"
      "no_overlap a_start num_bits carry_start (num_bits + 1)"
      "no_overlap b_start num_bits carry_start (num_bits + 1)"
    and "field_value (nat carry_start) (nat num_bits + 1) k = 0"
  shows "\<exists>k'. QuantumAdder_apply a_start b_start carry_start num_bits (basis_state n k)
               = (None, basis_state n k') \<and> k' < 2 ^ n \<and>
     field_value (nat a_start) (nat num_bits) k' = field_value (nat a_start) (nat num_bits) k \<and>
     field_value (nat b_start) (nat num_bits) k'
       = (field_value (nat a_start) (nat num_bits) k + field_value (nat b_start) (nat num_bits) k)
           mod 2 ^ nat num_bits \<and>
     (bit k' (nat carry_start + nat num_bits) \<longleftrightarrow>
        2 ^ nat num_bits
          \<le> field_value (nat a_start) (nat num_bits) k + field_value (nat b_start) (nat num_bits) k) \<and>
     (\<forall>q. \<not> (nat b_start \<le> q \<and> q < nat b_start + nat num_bits) \<longrightarrow>
          \<not> (nat carry_start \<le> q \<and> q \<le> nat carry_start + nat num_bits) \<longrightarrow>
          bit k' q = bit k q)"
proof -
  let ?a = "nat a_start" and ?b = "nat b_start" and ?cs = "nat carry_start"
    and ?nb = "nat num_bits"
  let ?A = "field_value ?a ?nb k" and ?B = "field_value ?b ?nb k"
  let ?k' = "adder_index a_start b_start carry_start num_bits k"
  have pos: "0 \<le> a_start" "0 \<le> b_start" "0 \<le> carry_start" "0 < num_bits"
    using assms(4) by (auto simp: new_QuantumAdder_def split: if_splits)
  have app: "QuantumAdder_apply a_start b_start carry_start num_bits (basis_state n k)
               = (None, basis_state n ?k')" "?k' < 2 ^ n"
    using QuantumAdder_apply_basis [OF assms(1,2,3) pos assms(5-10)] by simp_all
  have zero: "\<And>q. ?cs \<le> q \<Longrightarrow> q \<le> ?cs + ?nb \<Longrightarrow> \<not> bit k q"
    using field_value_zero_bits [OF assms(11)] by simp
  have bits: "bit ?k' q =
     (if ?b \<le> q \<and> q < ?b + ?nb then bit (?A + ?B) (q - ?b)
      else if ?cs < q \<and> q \<le> ?cs + ?nb
        then bit (take_bit (q - ?cs) ?A + take_bit (q - ?cs) ?B) (q - ?cs)
      else bit k q)" for q
    unfolding adder_index_def
    using pos(1-3) assms(8-10) zero le_refl by (rule adder_fold_bits)
  have d: "no_overlap (int ?a) (int ?nb) (int ?b) (int ?nb)"
    "no_overlap (int ?a) (int ?nb) (int ?cs) (int ?nb + 1)"
    "no_overlap (int ?b) (int ?nb) (int ?cs) (int ?nb + 1)"
    using assms(8-10) pos by simp_all
  have nbpos: "0 < ?nb" using pos by simp
  have outside: "bit ?k' q = bit k q"
    if "\<not> (?b \<le> q \<and> q < ?b + ?nb)" "\<not> (?cs \<le> q \<and> q \<le> ?cs + ?nb)" for q
  proof -
    have "\<not> (?cs < q \<and> q \<le> ?cs + ?nb)" using that(2) by linarith
    then show ?thesis unfolding bits using that(1) by (simp only: if_not_P if_False)
  qed
  have A': "field_value ?a ?nb ?k' = ?A"
  proof (rule bit_eqI)
    fix j
    show "bit (field_value ?a ?nb ?k') j = bit ?A j"
    proof (cases "j < ?nb")
      case True
      have "\<not> (?b \<le> ?a + j \<and> ?a + j < ?b + ?nb)" "\<not> (?cs \<le> ?a + j \<and> ?a + j \<le> ?cs + ?nb)"
        using d True unfolding no_overlap_def by linarith+
      then have "bit ?k' (?a + j) = bit k (?a + j)" by (rule outside)
      then show ?thesis by (simp add: bit_field_value)
    next
      case False
      then show ?thesis by (simp add: bit_field_value)
    qed
  qed
  have B': "field_value ?b ?nb ?k' = (?A + ?B) mod 2 ^ ?nb"
  proof -
    have "field_value ?b ?nb ?k' = take_bit ?nb (?A + ?B)"
    proof (rule bit_eqI)
      fix j
      show "bit (field_value ?b ?nb ?k') j = bit (take_bit ?nb (?A + ?B)) j"
      proof (cases "j < ?nb")
        case True
        have "?b \<le> ?b + j \<and> ?b + j < ?b + ?nb" using True by simp
        then have "bit ?k' (?b + j) = bit (?A + ?B) (?b + j - ?b)"
          unfolding bits by (simp only: if_P if_True)
        then show ?thesis using True by (simp add: bit_field_value bit_take_bit_iff)
      next
        case False
        then show ?thesis by (simp add: bit_field_value bit_take_bit_iff)
      qed
    qed
    then show ?thesis by (simp add: take_bit_eq_mod)
  qed
  have C': "bit ?k' (?cs + ?nb) \<longleftrightarrow> 2 ^ ?nb \<le> ?A + ?B"
  proof -
    have 1: "\<not> (?b \<le> ?cs + ?nb \<and> ?cs + ?nb < ?b + ?nb)"
      using d nbpos unfolding no_overlap_def by linarith
    have 2: "?cs < ?cs + ?nb \<and> ?cs + ?nb \<le> ?cs + ?nb" using nbpos by simp
    have 3: "?cs + ?nb - ?cs = ?nb" by simp
    have "bit ?k' (?cs + ?nb) = bit (take_bit ?nb ?A + take_bit ?nb ?B) ?nb"
      unfolding bits using 1 2 3 by (simp only: if_not_P if_P if_True if_False)
    then show ?thesis
      using carry_out_iff [OF field_value_lt field_value_lt, of ?nb ?a k ?b] by simp
  qed
  show ?thesis
    using app A' B' C' outside by blast
qed

theorem adder_on_basis_state_witness:
  "0 < (4::nat) \<and> (4::nat) \<le> 30 \<and> (3::nat) < 2 ^ 4 \<and>
   new_QuantumAdder 0 1 2 1 = Inr (0, 1, 2, 1) \<and>
   (0::int) + 1 \<le> int 4 \<and> (1::int) + 1 \<le> int 4 \<and> (2::int) + 1 + 1 \<le> int 4 \<and>
   no_overlap 0 1 1 1 \<and> no_overlap 0 1 2 (1 + 1) \<and> no_overlap 1 1 2 (1 + 1) \<and>
   field_value (nat 2) (nat 1 + 1) 3 = 0 \<and>
   (\<exists>k'. QuantumAdder_apply 0 1 2 1 (basis_state 4 3) = (None, basis_state 4 k') \<and>
      field_value (nat 0) (nat 1) k' = 1 \<and> field_value (nat 1) (nat 1) k' = 0 \<and>
      bit k' (nat 2 + nat 1))"
proof -
  have h: "0 < (4::nat)" "(4::nat) \<le> 30" "(3::nat) < 2 ^ 4"
    "new_QuantumAdder 0 1 2 1 = Inr (0, 1, 2, 1)"
    "(0::int) + 1 \<le> int 4" "(1::int) + 1 \<le> int 4" "(2::int) + 1 + 1 \<le> int 4"
    "no_overlap 0 1 1 1" "no_overlap 0 1 2 (1 + 1)" "no_overlap 1 1 2 (1 + 1)"
    "field_value (nat 2) (nat 1 + 1) 3 = 0"
    by (simp_all add: new_QuantumAdder_def no_overlap_def field_value_def)
  have v: "field_value (nat 0) (nat 1) 3 = 1" "field_value (nat 1) (nat 1) 3 = 1"
    by (simp_all add: field_value_def)
  show ?thesis
    using h adder_on_basis_state [OF h] unfolding v by auto
qed

section \<open>The comparator on basis states\<close>

lemma bit_comparator_step_index:
  assumes "pa \<noteq> pb" "pa \<noteq> pr'" "pb \<noteq> pr" "pb \<noteq> pr'" "pr \<noteq> pr'"
    and "pa = nat (a + int i)" "pb = nat (b + int i)" "pr = nat (rs + 1 + int i - 1)"
      "pr' = nat (rs + 1 + int i)"
  shows "bit (comparator_step_index a b rs i k) q =
     (if q = pr' then bit k pr' \<noteq> ((bit k pb = bit k pa) \<and> bit k pr)
      else if q = pb then bit k pb = bit k pa
      else bit k q)"
  unfolding comparator_step_index_def Let_def bit_cnot_index bit_toffoli_index bit_x_index
    assms(6-9) [symmetric]
  using assms(1-5) by auto

lemma comparator_fold_bits:
  fixes k k0 :: nat and a b rs nb :: int
  assumes pos: "0 \<le> a" "0 \<le> b" "0 \<le> rs"
    and dis: "no_overlap a nb b nb" "no_overlap a nb rs (nb + 1)" "no_overlap b nb rs (nb + 1)"
    and zero: "\<And>q. nat rs \<le> q \<Longrightarrow> q \<le> nat rs + nat nb \<Longrightarrow> \<not> bit k q"
    and k0: "k0 = source_index (XGate rs) k"
    and m: "m \<le> nat nb"
  shows "bit (fold (comparator_step_index a b rs) [0..<m] k0) q =
     (if nat b \<le> q \<and> q < nat b + m
        then bit k (nat a + (q - nat b)) = bit k q
      else if nat rs \<le> q \<and> q \<le> nat rs + m
        then (\<forall>j < q - nat rs. bit k (nat a + j) = bit k (nat b + j))
      else bit k q)"
  using m
proof (induction m arbitrary: q)
  case 0
  have "\<not> bit k (nat rs)" by (rule zero) simp_all
  then show ?case unfolding k0 by (auto simp: bit_flip_bit_iff)
next
  case (Suc m)
  let ?K = "fold (comparator_step_index a b rs) [0..<m] k0"
  let ?pa = "nat a + m" and ?pb = "nat b + m" and ?pr = "nat rs + m" and ?pr' = "nat rs + m + 1"
  let ?eq = "\<lambda>j. bit k (nat a + j) = bit k (nat b + j)"
  have mn: "m < nat nb" using Suc.prems by simp
  then have nbpos: "0 \<le> nb" by simp
  have IH: "\<And>q. bit ?K q =
     (if nat b \<le> q \<and> q < nat b + m then bit k (nat a + (q - nat b)) = bit k q
      else if nat rs \<le> q \<and> q \<le> nat rs + m then (\<forall>j < q - nat rs. ?eq j)
      else bit k q)"
    using Suc by simp
  have d: "no_overlap (int (nat a)) (int (nat nb)) (int (nat b)) (int (nat nb))"
    "no_overlap (int (nat a)) (int (nat nb)) (int (nat rs)) (int (nat nb) + 1)"
    "no_overlap (int (nat b)) (int (nat nb)) (int (nat rs)) (int (nat nb) + 1)"
    using dis pos nbpos by simp_all
  have ne: "?pa \<noteq> ?pb" "?pa \<noteq> ?pr'" "?pb \<noteq> ?pr" "?pb \<noteq> ?pr'" "?pr \<noteq> ?pr'"
    using d mn unfolding no_overlap_def by linarith+
  have eq: "?pa = nat (a + int m)" "?pb = nat (b + int m)" "?pr = nat (rs + 1 + int m - 1)"
    "?pr' = nat (rs + 1 + int m)"
    using pos by simp_all
  have IH0: "bit ?K p = bit k p"
    if "\<not> (nat b \<le> p \<and> p < nat b + m)" "\<not> (nat rs \<le> p \<and> p \<le> nat rs + m)" for p
    using that by (simp only: IH if_not_P if_False)
  have ka: "bit ?K ?pa = bit k ?pa"
  proof -
    have "\<not> (nat b \<le> ?pa \<and> ?pa < nat b + m)" "\<not> (nat rs \<le> ?pa \<and> ?pa \<le> nat rs + m)"
      using d mn unfolding no_overlap_def by linarith+
    then show ?thesis by (rule IH0)
  qed
  have kb: "bit ?K ?pb = bit k ?pb"
  proof -
    have "\<not> (nat b \<le> ?pb \<and> ?pb < nat b + m)" "\<not> (nat rs \<le> ?pb \<and> ?pb \<le> nat rs + m)"
      using d mn unfolding no_overlap_def by linarith+
    then show ?thesis by (rule IH0)
  qed
  have kr: "bit ?K ?pr = (\<forall>j < m. ?eq j)"
  proof -
    have n1: "\<not> (nat b \<le> ?pr \<and> ?pr < nat b + m)"
      using d mn unfolding no_overlap_def by linarith
    have y: "nat rs \<le> ?pr \<and> ?pr \<le> nat rs + m" by simp
    have "bit ?K ?pr = (\<forall>j < ?pr - nat rs. ?eq j)"
      using n1 y by (simp only: IH if_not_P if_P if_False if_True)
    then show ?thesis by simp
  qed
  have kr': "\<not> bit ?K ?pr'"
  proof -
    have "\<not> (nat b \<le> ?pr' \<and> ?pr' < nat b + m)" "\<not> (nat rs \<le> ?pr' \<and> ?pr' \<le> nat rs + m)"
      using d mn unfolding no_overlap_def by linarith+
    then have "bit ?K ?pr' = bit k ?pr'" by (rule IH0)
    moreover have "\<not> bit k ?pr'" using mn by (intro zero) simp_all
    ultimately show ?thesis by simp
  qed
  have step: "fold (comparator_step_index a b rs) [0..<Suc m] k0
                = comparator_step_index a b rs m ?K"
    by simp
  have all: "(\<forall>j < Suc m. ?eq j) \<longleftrightarrow> (\<forall>j < m. ?eq j) \<and> ?eq m"
    by (auto simp: less_Suc_eq)
  have bits: "bit (comparator_step_index a b rs m ?K) q =
     (if q = ?pr' then (\<forall>j < Suc m. ?eq j)
      else if q = ?pb then ?eq m
      else bit ?K q)"
    unfolding bit_comparator_step_index [OF ne eq] ka kb kr all
    using kr' by auto
  show ?case
  proof -
    consider "q = ?pr'" | "q = ?pb" | "q \<noteq> ?pr'" "q \<noteq> ?pb" by blast
    then show ?thesis
    proof cases
      case 1
      have c1: "\<not> (nat b \<le> q \<and> q < nat b + Suc m)"
        using 1 d mn unfolding no_overlap_def by linarith
      have c2: "nat rs \<le> q \<and> q \<le> nat rs + Suc m" using 1 by simp
      have c3: "q - nat rs = Suc m" using 1 by simp
      have "bit (comparator_step_index a b rs m ?K) q = (\<forall>j < Suc m. ?eq j)"
        unfolding bits using 1 by (simp only: if_P if_True)
      then show ?thesis unfolding step using c1 c2 c3
        by (simp only: if_not_P if_P if_True if_False)
    next
      case 2
      have c1: "nat b \<le> q \<and> q < nat b + Suc m" using 2 by simp
      have c3: "nat a + (q - nat b) = ?pa" using 2 by simp
      have "q \<noteq> ?pr'" using 2 ne by simp
      then have "bit (comparator_step_index a b rs m ?K) q = ?eq m"
        unfolding bits using 2 by (simp only: if_not_P if_P if_True if_False)
      then show ?thesis unfolding step using c1 c3 2
        by (simp only: if_P if_True if_False)
    next
      case 3
      have e1: "(nat b \<le> q \<and> q < nat b + Suc m) = (nat b \<le> q \<and> q < nat b + m)"
        using 3 by auto
      have e2: "(nat rs \<le> q \<and> q \<le> nat rs + Suc m) = (nat rs \<le> q \<and> q \<le> nat rs + m)"
        using 3 by auto
      have "bit (comparator_step_index a b rs m ?K) q = bit ?K q"
        unfolding bits using 3 by (simp only: if_not_P if_True if_False)
      then show ?thesis unfolding step e1 e2 IH .
    qed
  qed
qed

lemma QuantumComparator_body_basis:
  assumes n: "0 < n" "n \<le> 30" and k: "k < 2 ^ n"
    and pos: "0 \<le> a" "0 \<le> b" "0 \<le> rs"
    and fit: "a + int i < int n" "b + int i < int n" "rs + 1 + int i < int n"
    and ne: "a + int i \<noteq> b + int i" "b + int i \<noteq> rs + 1 + int i - 1"
      "b + int i \<noteq> rs + 1 + int i"
  shows "QuantumComparator_body a b rs i (basis_state n k)
           = (None, basis_state n (comparator_step_index a b rs i k))
         \<and> comparator_step_index a b rs i k < 2 ^ n"
proof -
  let ?pa = "a + int i" and ?pb = "b + int i" and ?pr = "rs + 1 + int i - 1"
    and ?pr' = "rs + 1 + int i"
  let ?k1 = "source_index (CNOTGate ?pa ?pb) k"
  let ?k2 = "source_index (XGate ?pb) ?k1"
  let ?k3 = "source_index (ToffoliGate ?pb ?pr ?pr') ?k2"
  have p: "0 \<le> ?pa" "0 \<le> ?pb" "0 \<le> ?pr" "0 \<le> ?pr'" "?pr < int n" "?pr \<noteq> ?pr'"
    using pos fit by simp_all
  note 1 = cnot_basis [OF n k p(1) p(2) fit(1) fit(2) ne(1)]
  note 2 = x_basis [OF n 1(2) p(2) fit(2)]
  note 3 = toffoli_basis [OF n 2(2) p(2) p(3) p(4) fit(2) p(5) fit(3) ne(2) ne(3) p(6)]
  have e: "int_add a (int i) = ?pa" "int_add b (int i) = ?pb" "int_add rs 1 = rs + 1"
    "int_add (rs + 1) (int i) = ?pr'"
    using pos fit n(2) by (auto intro!: int_add_small)
  have e': "int_sub ?pr' 1 = ?pr"
    using pos fit n(2) by (intro int_sub_eq) simp_all
  have "QuantumComparator_body a b rs i (basis_state n k) = (None, basis_state n ?k3)"
    unfolding QuantumComparator_body_def Let_def e e'
    by (simp only: and_then_def 1(1) 2(1) 3(1) prod.simps option.simps)
  moreover have "comparator_step_index a b rs i k = ?k3"
    unfolding comparator_step_index_def Let_def ..
  ultimately show ?thesis using 3(2) by simp
qed

lemma QuantumComparator_apply_basis:
  assumes n: "0 < n" "n \<le> 30" and k: "k < 2 ^ n"
    and pos: "0 \<le> a" "0 \<le> b" "0 \<le> rs" "0 < nb"
    and fit: "a + nb \<le> int n" "b + nb \<le> int n" "rs + nb + 1 \<le> int n"
    and dis: "no_overlap a nb b nb" "no_overlap a nb rs (nb + 1)" "no_overlap b nb rs (nb + 1)"
  shows "QuantumComparator_apply a b rs nb (basis_state n k)
           = (None, basis_state n (comparator_index a b rs nb k))
         \<and> comparator_index a b rs nb k < 2 ^ n"
proof -
  let ?k0 = "source_index (XGate rs) k"
  have rsn: "rs < int n" using fit pos by simp
  note 0 = x_basis [OF n k pos(3) rsn]
  have body: "QuantumComparator_body a b rs i (basis_state n k')
           = (None, basis_state n (comparator_step_index a b rs i k'))
         \<and> comparator_step_index a b rs i k' < 2 ^ n"
    if "i \<in> set [0..<nat nb]" "k' < 2 ^ n" for i k'
  proof -
    have i: "int i < nb" using that(1) by simp
    show ?thesis
      using n that(2) pos(1-3)
    proof (rule QuantumComparator_body_basis)
      show "a + int i < int n" "b + int i < int n" "rs + 1 + int i < int n"
        using i fit by simp_all
      show "a + int i \<noteq> b + int i" "b + int i \<noteq> rs + 1 + int i - 1"
        "b + int i \<noteq> rs + 1 + int i"
        using i dis pos unfolding no_overlap_def by linarith+
    qed
  qed
  have "gate_loop (QuantumComparator_body a b rs) [0..<nat nb] (basis_state n ?k0)
          = (None, basis_state n (fold (comparator_step_index a b rs) [0..<nat nb] ?k0))
        \<and> fold (comparator_step_index a b rs) [0..<nat nb] ?k0 < 2 ^ n"
    using body 0(2) by (rule gate_loop_basis)
  then have "and_then (construct_apply (new_XGate rs))
               (gate_loop (QuantumComparator_body a b rs) [0..<nat nb]) (basis_state n k)
          = (None, basis_state n (comparator_index a b rs nb k))
        \<and> comparator_index a b rs nb k < 2 ^ n"
    unfolding comparator_index_def by (simp only: and_then_def 0(1) prod.simps option.simps)
  moreover have "int_add a nb = a + nb" "int_add b nb = b + nb" "int_add rs nb = rs + nb"
    "int_add (rs + nb) 1 = rs + nb + 1"
    using pos fit n(2) by (auto intro!: int_add_small)
  ultimately show ?thesis
    using fit
    by (simp add: QuantumComparator_apply_def getNumQubits_def basis_state_def)
qed

text \<open>
  Claim C5. On a basis state \<open>k\<close> of a store of \<open>n\<close> qubits in which the registers A and B
  (\<open>num_bits\<close> wide) and the result chain (\<open>num_bits + 1\<close> qubits from \<open>resultStart\<close>) lie
  within the store, are pairwise disjoint, and the result chain is all zero, the comparator
  returns normally and leaves a basis state whose last result qubit \<open>result[num_bits]\<close> is 1
  exactly when the values of A and B in \<open>k\<close> are equal.
\<close>

theorem comparator_on_basis_state:
  assumes "0 < n" "n \<le> 30" "k < 2 ^ n"
    and "new_QuantumComparator a_start b_start result_start num_bits ancilla_start
           = Inr (a_start, b_start, result_start, num_bits, ancilla_start)"
    and "a_start + num_bits \<le> int n" "b_start + num_bits \<le> int n"
      "result_start + num_bits + 1 \<le> int n"
    and "no_overlap a_start num_bits b_start num_bits"
      "no_overlap a_start num_bits result_start (num_bits + 1)"
      "no_overlap b_start num_bits result_start (num_bits + 1)"
    and "field_value (nat result_start) (nat num_bits + 1) k = 0"
  shows "\<exists>k'. QuantumComparator_apply a_start b_start result_start num_bits (basis_state n k)
               = (None, basis_state n k') \<and> k' < 2 ^ n \<and>
     (bit k' (nat result_start + nat num_bits) \<longleftrightarrow>
        field_value (nat a_start) (nat num_bits) k = field_value (nat b_start) (nat num_bits) k)"
proof -
  let ?a = "nat a_start" and ?b = "nat b_start" and ?rs = "nat result_start"
    and ?nb = "nat num_bits"
  let ?k' = "comparator_index a_start b_start result_start num_bits k"
  have pos: "0 \<le> a_start" "0 \<le> b_start" "0 \<le> result_start" "0 < num_bits"
    using assms(4) by (auto simp: new_QuantumComparator_def split: if_splits)
  have app: "QuantumComparator_apply a_start b_start result_start num_bits (basis_state n k)
               = (None, basis_state n ?k')" "?k' < 2 ^ n"
    using QuantumComparator_apply_basis [OF assms(1,2,3) pos assms(5-10)] by simp_all
  have zero: "\<And>q. ?rs \<le> q \<Longrightarrow> q \<le> ?rs + ?nb \<Longrightarrow> \<not> bit k q"
    using field_value_zero_bits [OF assms(11)] by simp
  have bits: "bit ?k' q =
     (if ?b \<le> q \<and> q < ?b + ?nb then bit k (?a + (q - ?b)) = bit k q
      else if ?rs \<le> q \<and> q \<le> ?rs + ?nb
        then (\<forall>j < q - ?rs. bit k (?a + j) = bit k (?b + j))
      else bit k q)" for q
    unfolding comparator_index_def
    using pos(1-3) assms(8-10) zero refl le_refl by (rule comparator_fold_bits)
  have d: "no_overlap (int ?b) (int ?nb) (int ?rs) (int ?nb + 1)"
    using assms(10) pos by simp
  have 1: "\<not> (?b \<le> ?rs + ?nb \<and> ?rs + ?nb < ?b + ?nb)"
    using d pos unfolding no_overlap_def by linarith
  have 2: "?rs \<le> ?rs + ?nb \<and> ?rs + ?nb \<le> ?rs + ?nb" by simp
  have 3: "?rs + ?nb - ?rs = ?nb" by simp
  have "bit ?k' (?rs + ?nb) = (\<forall>j < ?nb. bit k (?a + j) = bit k (?b + j))"
    unfolding bits using 1 2 3 by (simp only: if_not_P if_P if_True if_False)
  also have "\<dots> \<longleftrightarrow> field_value ?a ?nb k = field_value ?b ?nb k"
    by (auto simp: bit_eq_iff [of "field_value ?a ?nb k"] bit_field_value)
  finally show ?thesis using app by blast
qed

theorem comparator_on_basis_state_witness:
  "0 < (4::nat) \<and> (4::nat) \<le> 30 \<and> (3::nat) < 2 ^ 4 \<and>
   new_QuantumComparator 0 1 2 1 (-1) = Inr (0, 1, 2, 1, -1) \<and>
   (0::int) + 1 \<le> int 4 \<and> (1::int) + 1 \<le> int 4 \<and> (2::int) + 1 + 1 \<le> int 4 \<and>
   no_overlap 0 1 1 1 \<and> no_overlap 0 1 2 (1 + 1) \<and> no_overlap 1 1 2 (1 + 1) \<and>
   field_value (nat 2) (nat 1 + 1) 3 = 0 \<and>
   (\<exists>k'. QuantumComparator_apply 0 1 2 1 (basis_state 4 3) = (None, basis_state 4 k') \<and>
      bit k' (nat 2 + nat 1))"
proof -
  have h: "0 < (4::nat)" "(4::nat) \<le> 30" "(3::nat) < 2 ^ 4"
    "new_QuantumComparator 0 1 2 1 (-1) = Inr (0, 1, 2, 1, -1)"
    "(0::int) + 1 \<le> int 4" "(1::int) + 1 \<le> int 4" "(2::int) + 1 + 1 \<le> int 4"
    "no_overlap 0 1 1 1" "no_overlap 0 1 2 (1 + 1)" "no_overlap 1 1 2 (1 + 1)"
    "field_value (nat 2) (nat 1 + 1) 3 = 0"
    by (simp_all add: new_QuantumComparator_def no_overlap_def field_value_def)
  have v: "field_value (nat 0) (nat 1) 3 = 1" "field_value (nat 1) (nat 1) 3 = 1"
    by (simp_all add: field_value_def)
  show ?thesis
    using h comparator_on_basis_state [OF h] unfolding v by auto
qed

section \<open>Failures and the store\<close>

lemma commit_not_invalid:
  "commit new is st = (Some (Thrown InvalidArgument), st') \<Longrightarrow> False"
proof (induction "is" arbitrary: st)
  case Nil
  then show ?case by simp
next
  case (Cons i "is")
  then show ?case
    by (auto simp: setAmplitude_def split: option.splits if_splits prod.splits)
qed

lemma phase_loop_not_invalid:
  "phase_loop b f is st = (Some (Thrown InvalidArgument), st') \<Longrightarrow> False"
proof (induction "is" arbitrary: st)
  case Nil
  then show ?case by simp
next
  case (Cons i "is")
  then show ?case
    by (auto simp: setAmplitude_def getAmplitude_def
        split: option.splits if_splits prod.splits sum.splits)
qed

lemma primitive_failure_unchanged:
  assumes "apply_gate g st = (Some (Thrown InvalidArgument), st')"
  shows "st' = st"
proof (cases g)
  case (HadamardGate t)
  then show ?thesis
    using assms
    by (auto simp: HadamardGate_apply_def Let_def split: if_splits option.splits
        dest: commit_not_invalid)
next
  case (CNOTGate c t)
  then show ?thesis
    using assms
    by (auto simp: CNOTGate_apply_def Let_def split: if_splits option.splits
        dest: commit_not_invalid)
next
  case (SWAPGate q1 q2)
  then show ?thesis
    using assms
    by (auto simp: SWAPGate_apply_def Let_def split: if_splits option.splits
        dest: commit_not_invalid)
next
  case (ToffoliGate c1 c2 t)
  then show ?thesis
    using assms
    by (auto simp: ToffoliGate_apply_def Let_def split: if_splits option.splits
        dest: commit_not_invalid)
next
  case (PhaseShiftGate t angle phase_factor)
  then show ?thesis
    using assms
    by (auto simp: PhaseShiftGate_apply_def Let_def split: if_splits
        dest: phase_loop_not_invalid)
next
  case (XGate t)
  then show ?thesis
    using assms
    by (auto simp: XGate_apply_def Let_def split: if_splits option.splits
        dest: commit_not_invalid)
next
  case (ControlledModMultGate c ts tc mult md)
  then show ?thesis
    using assms
    by (auto simp: ControlledModMultGate_apply_def Let_def split: if_splits option.splits
        dest: commit_not_invalid)
qed

text \<open>A gate that only moves amplitudes returns normally on every store it fits.\<close>

lemma construct_apply_returns:
  assumes "wf_state st" "num_qubits st = n" "c = Inr g" "constructed g" "self_inverse_kind g"
    "fits g (basis_state n 0)"
  shows "\<exists>st'. construct_apply c st = (None, st') \<and> wf_state st' \<and> num_qubits st' = n"
proof -
  have f: "fits g st"
    using assms(2,6) by (cases g) (simp_all add: getNumQubits_def basis_state_def)
  have "construct_apply c st = (None, permute (source_index g) st)"
    using permute_gate_apply [OF assms(1,4,5) f] assms(3) by (simp add: construct_apply_def)
  moreover have "wf_state (permute (source_index g) st)"
    using assms(1) by (rule wf_permute)
  moreover have "num_qubits (permute (source_index g) st) = n"
    using assms(2) by (simp add: permute_def)
  ultimately show ?thesis by blast
qed

lemma toffoli_returns:
  assumes "wf_state st" "num_qubits st = n"
    "0 \<le> c1" "0 \<le> c2" "0 \<le> t" "c1 < int n" "c2 < int n" "t < int n"
    "c1 \<noteq> c2" "c1 \<noteq> t" "c2 \<noteq> t"
  shows "\<exists>st'. construct_apply (new_ToffoliGate c1 c2 t) st = (None, st') \<and> wf_state st'
           \<and> num_qubits st' = n"
proof -
  have c: "new_ToffoliGate c1 c2 t = Inr (ToffoliGate c1 c2 t)"
    using assms by (simp add: new_ToffoliGate_def)
  show ?thesis
    using assms(1,2) c
    by (rule construct_apply_returns)
       (use assms c in \<open>simp_all add: getNumQubits_def basis_state_def\<close>)
qed

lemma cnot_returns:
  assumes "wf_state st" "num_qubits st = n"
    "0 \<le> c" "0 \<le> t" "c < int n" "t < int n" "c \<noteq> t"
  shows "\<exists>st'. construct_apply (new_CNOTGate c t) st = (None, st') \<and> wf_state st'
           \<and> num_qubits st' = n"
proof -
  have c: "new_CNOTGate c t = Inr (CNOTGate c t)"
    using assms by (simp add: new_CNOTGate_def)
  show ?thesis
    using assms(1,2) c
    by (rule construct_apply_returns)
       (use assms c in \<open>simp_all add: getNumQubits_def basis_state_def\<close>)
qed

lemma x_returns:
  assumes "wf_state st" "num_qubits st = n" "0 \<le> t" "t < int n"
  shows "\<exists>st'. construct_apply (new_XGate t) st = (None, st') \<and> wf_state st'
           \<and> num_qubits st' = n"
proof -
  have c: "new_XGate t = Inr (XGate t)"
    using assms by (simp add: new_XGate_def)
  show ?thesis
    using assms(1,2) c
    by (rule construct_apply_returns)
       (use assms c in \<open>simp_all add: getNumQubits_def basis_state_def\<close>)
qed

lemma and_then_returns:
  assumes "\<exists>st1. f st = (None, st1) \<and> wf_state st1 \<and> num_qubits st1 = n"
    and "\<And>st1. wf_state st1 \<Longrightarrow> num_qubits st1 = n \<Longrightarrow>
           \<exists>st'. g st1 = (None, st') \<and> wf_state st' \<and> num_qubits st' = n"
  shows "\<exists>st'. and_then f g st = (None, st') \<and> wf_state st' \<and> num_qubits st' = n"
  using assms by (auto simp: and_then_def)

lemma gate_loop_returns:
  assumes "\<And>i st. i \<in> set is \<Longrightarrow> wf_state st \<Longrightarrow> num_qubits st = n \<Longrightarrow>
             \<exists>st'. body i st = (None, st') \<and> wf_state st' \<and> num_qubits st' = n"
    and "wf_state st" "num_qubits st = n"
  shows "\<exists>st'. gate_loop body is st = (None, st') \<and> wf_state st' \<and> num_qubits st' = n"
  using assms
proof (induction "is" arbitrary: st)
  case Nil
  then show ?case by simp
next
  case (Cons i "is")
  have 1: "\<exists>st1. body i st = (None, st1) \<and> wf_state st1 \<and> num_qubits st1 = n"
    using Cons.prems by simp
  have 2: "\<exists>st'. gate_loop body is st1 = (None, st') \<and> wf_state st' \<and> num_qubits st' = n"
    if "wf_state st1" "num_qubits st1 = n" for st1
    using Cons.prems(1) that by (intro Cons.IH) simp_all
  show ?case
    unfolding gate_loop.simps using 1 2 by (rule and_then_returns)
qed

lemma QuantumAdder_body_returns:
  assumes st: "wf_state st" "num_qubits st = n"
    and pos: "0 \<le> a" "0 \<le> b" "0 \<le> cs"
    and fit: "a + int i < int n" "b + int i < int n" "cs + int i + 1 < int n"
    and ne: "a + int i \<noteq> b + int i" "a + int i \<noteq> cs + int i" "a + int i \<noteq> cs + int i + 1"
      "b + int i \<noteq> cs + int i" "b + int i \<noteq> cs + int i + 1"
  shows "\<exists>st'. QuantumAdder_body a b cs i st = (None, st') \<and> wf_state st' \<and> num_qubits st' = n"
proof -
  let ?pa = "a + int i" and ?pb = "b + int i" and ?pc = "cs + int i" and ?pd = "cs + int i + 1"
  have p: "0 \<le> ?pa" "0 \<le> ?pb" "0 \<le> ?pc" "0 \<le> ?pd" "?pc < int n" "?pc \<noteq> ?pd"
    using pos fit by simp_all
  have n30: "n \<le> 30" using st by (simp add: wf_state_def)
  have e: "int_add a (int i) = ?pa" "int_add b (int i) = ?pb" "int_add cs (int i) = ?pc"
    "int_add (cs + int i) 1 = ?pd"
    using pos fit n30 by (auto intro!: int_add_small)
  show ?thesis
    unfolding QuantumAdder_body_def Let_def e
  proof (intro and_then_returns)
    show "\<exists>st1. construct_apply (new_ToffoliGate ?pa ?pb ?pd) st = (None, st1) \<and> wf_state st1
            \<and> num_qubits st1 = n"
      using st p(1) p(2) p(4) fit(1) fit(2) fit(3) ne(1) ne(3) ne(5) by (rule toffoli_returns)
    show "\<exists>st'. construct_apply (new_ToffoliGate ?pa ?pc ?pd) st1 = (None, st') \<and> wf_state st'
            \<and> num_qubits st' = n" if "wf_state st1" "num_qubits st1 = n" for st1
      using that p(1) p(3) p(4) fit(1) p(5) fit(3) ne(2) ne(3) p(6) by (rule toffoli_returns)
    show "\<exists>st'. construct_apply (new_ToffoliGate ?pb ?pc ?pd) st1 = (None, st') \<and> wf_state st'
            \<and> num_qubits st' = n" if "wf_state st1" "num_qubits st1 = n" for st1
      using that p(2) p(3) p(4) fit(2) p(5) fit(3) ne(4) ne(5) p(6) by (rule toffoli_returns)
    show "\<exists>st'. construct_apply (new_CNOTGate ?pa ?pb) st1 = (None, st') \<and> wf_state st'
            \<and> num_qubits st' = n" if "wf_state st1" "num_qubits st1 = n" for st1
      using that p(1) p(2) fit(1) fit(2) ne(1) by (rule cnot_returns)
    show "\<exists>st'. construct_apply (new_CNOTGate ?pc ?pb) st1 = (None, st') \<and> wf_state st'
            \<and> num_qubits st' = n" if "wf_state st1" "num_qubits st1 = n" for st1
      using that p(3) p(2) p(5) fit(2) ne(4) [symmetric] by (rule cnot_returns)
  qed
qed

lemma QuantumComparator_body_returns:
  assumes st: "wf_state st" "num_qubits st = n"
    and pos: "0 \<le> a" "0 \<le> b" "0 \<le> rs"
    and fit: "a + int i < int n" "b + int i < int n" "rs + 1 + int i < int n"
    and ne: "a + int i \<noteq> b + int i" "b + int i \<noteq> rs + 1 + int i - 1"
      "b + int i \<noteq> rs + 1 + int i"
  shows "\<exists>st'. QuantumComparator_body a b rs i st = (None, st') \<and> wf_state st'
           \<and> num_qubits st' = n"
proof -
  let ?pa = "a + int i" and ?pb = "b + int i" and ?pr = "rs + 1 + int i - 1"
    and ?pr' = "rs + 1 + int i"
  have p: "0 \<le> ?pa" "0 \<le> ?pb" "0 \<le> ?pr" "0 \<le> ?pr'" "?pr < int n" "?pr \<noteq> ?pr'"
    using pos fit by simp_all
  have n30: "n \<le> 30" using st by (simp add: wf_state_def)
  have e: "int_add a (int i) = ?pa" "int_add b (int i) = ?pb" "int_add rs 1 = rs + 1"
    "int_add (rs + 1) (int i) = ?pr'"
    using pos fit n30 by (auto intro!: int_add_small)
  have e': "int_sub ?pr' 1 = ?pr"
    using pos fit n30 by (intro int_sub_eq) simp_all
  show ?thesis
    unfolding QuantumComparator_body_def Let_def e e'
  proof (intro and_then_returns)
    show "\<exists>st1. construct_apply (new_CNOTGate ?pa ?pb) st = (None, st1) \<and> wf_state st1
            \<and> num_qubits st1 = n"
      using st p(1) p(2) fit(1) fit(2) ne(1) by (rule cnot_returns)
    show "\<exists>st'. construct_apply (new_XGate ?pb) st1 = (None, st') \<and> wf_state st'
            \<and> num_qubits st' = n" if "wf_state st1" "num_qubits st1 = n" for st1
      using that p(2) fit(2) by (rule x_returns)
    show "\<exists>st'. construct_apply (new_ToffoliGate ?pb ?pr ?pr') st1 = (None, st') \<and> wf_state st'
            \<and> num_qubits st' = n" if "wf_state st1" "num_qubits st1 = n" for st1
      using that p(2) p(3) p(4) fit(2) p(5) fit(3) ne(2) ne(3) p(6) by (rule toffoli_returns)
  qed
qed

lemma QuantumAdder_apply_returns:
  assumes st: "wf_state st"
    and pos: "0 \<le> a" "0 \<le> b" "0 \<le> cs" "0 < nb"
    and fit: "a + nb \<le> getNumQubits st" "b + nb \<le> getNumQubits st"
      "cs + nb + 1 \<le> getNumQubits st"
    and dis: "no_overlap a nb b nb" "no_overlap a nb cs (nb + 1)" "no_overlap b nb cs (nb + 1)"
  shows "fst (QuantumAdder_apply a b cs nb st) = None"
proof -
  let ?n = "num_qubits st"
  have fit': "a + nb \<le> int ?n" "b + nb \<le> int ?n" "cs + nb + 1 \<le> int ?n"
    using fit by (simp_all add: getNumQubits_def)
  have "\<exists>st'. gate_loop (QuantumAdder_body a b cs) [0..<nat nb] st = (None, st') \<and> wf_state st'
           \<and> num_qubits st' = ?n"
  proof (rule gate_loop_returns [OF _ st refl])
    fix i st1 assume i: "i \<in> set [0..<nat nb]" and st1: "wf_state st1" "num_qubits st1 = ?n"
    have i': "int i < nb" using i by simp
    show "\<exists>st'. QuantumAdder_body a b cs i st1 = (None, st') \<and> wf_state st'
            \<and> num_qubits st' = ?n"
      using st1 pos(1-3)
    proof (rule QuantumAdder_body_returns)
      show "a + int i < int ?n" "b + int i < int ?n" "cs + int i + 1 < int ?n"
        using i' fit' by simp_all
      show "a + int i \<noteq> b + int i" "a + int i \<noteq> cs + int i" "a + int i \<noteq> cs + int i + 1"
        "b + int i \<noteq> cs + int i" "b + int i \<noteq> cs + int i + 1"
        using i' dis pos unfolding no_overlap_def by linarith+
    qed
  qed
  moreover have "?n \<le> 30" using st by (simp add: wf_state_def)
  then have "int_add a nb = a + nb" "int_add b nb = b + nb" "int_add cs nb = cs + nb"
    "int_add (cs + nb) 1 = cs + nb + 1"
    using pos fit' by (auto intro!: int_add_small)
  ultimately show ?thesis
    using fit by (auto simp: QuantumAdder_apply_def Let_def)
qed

lemma QuantumComparator_apply_returns:
  assumes st: "wf_state st"
    and pos: "0 \<le> a" "0 \<le> b" "0 \<le> rs" "0 < nb"
    and fit: "a + nb \<le> getNumQubits st" "b + nb \<le> getNumQubits st"
      "rs + nb + 1 \<le> getNumQubits st"
    and dis: "no_overlap a nb b nb" "no_overlap a nb rs (nb + 1)" "no_overlap b nb rs (nb + 1)"
  shows "fst (QuantumComparator_apply a b rs nb st) = None"
proof -
  let ?n = "num_qubits st"
  have fit': "a + nb \<le> int ?n" "b + nb \<le> int ?n" "rs + nb + 1 \<le> int ?n"
    using fit by (simp_all add: getNumQubits_def)
  have rsn: "rs < int ?n" using fit' pos by simp
  have loop: "\<exists>st'. gate_loop (QuantumComparator_body a b rs) [0..<nat nb] st0 = (None, st')
           \<and> wf_state st' \<and> num_qubits st' = ?n"
    if st0: "wf_state st0" "num_qubits st0 = ?n" for st0
  proof (rule gate_loop_returns [OF _ st0])
    fix i st1 assume i: "i \<in> set [0..<nat nb]" and st1: "wf_state st1" "num_qubits st1 = ?n"
    have i': "int i < nb" using i by simp
    show "\<exists>st'. QuantumComparator_body a b rs i st1 = (None, st') \<and> wf_state st'
            \<and> num_qubits st' = ?n"
      using st1 pos(1-3)
    proof (rule QuantumComparator_body_returns)
      show "a + int i < int ?n" "b + int i < int ?n" "rs + 1 + int i < int ?n"
        using i' fit' by simp_all
      show "a + int i \<noteq> b + int i" "b + int i \<noteq> rs + 1 + int i - 1"
        "b + int i \<noteq> rs + 1 + int i"
        using i' dis pos unfolding no_overlap_def by linarith+
    qed
  qed
  have "\<exists>st'. and_then (construct_apply (new_XGate rs))
           (gate_loop (QuantumComparator_body a b rs) [0..<nat nb]) st = (None, st')
           \<and> wf_state st' \<and> num_qubits st' = ?n"
    using x_returns [OF st refl pos(3) rsn] loop by (rule and_then_returns)
  moreover have "?n \<le> 30" using st by (simp add: wf_state_def)
  then have "int_add a nb = a + nb" "int_add b nb = b + nb" "int_add rs nb = rs + nb"
    "int_add (rs + nb) 1 = rs + nb + 1"
    using pos fit' by (auto intro!: int_add_small)
  ultimately show ?thesis
    using fit by (auto simp: QuantumComparator_apply_def Let_def)
qed

lemma toffoli_rejected:
  assumes "c1 \<ge> getNumQubits st \<or> c2 \<ge> getNumQubits st \<or> t \<ge> getNumQubits st \<or> t < 0"
  shows "construct_apply (new_ToffoliGate c1 c2 t) st = (Some (Thrown InvalidArgument), st)"
  using assms by (auto simp: construct_apply_def new_ToffoliGate_def ToffoliGate_apply_def)

lemma gate_loop_first_fails:
  assumes "0 < m" "body 0 st = (Some f, st)"
  shows "gate_loop body [0..<m] st = (Some f, st)"
proof -
  have "[0..<m] = 0 # [Suc 0..<m]" using assms(1) by (simp add: upt_conv_Cons)
  then show ?thesis using assms(2) by (simp add: and_then_def)
qed

lemma int_add_one:
  assumes "0 \<le> c" "c \<le> 2147483647" "n \<le> c + 1"
  shows "n \<le> int_add c 1 \<or> int_add c 1 < 0"
proof (cases "c = 2147483647")
  case True
  then show ?thesis by (simp add: int_add_def)
next
  case False
  then have "int_add c 1 = c + 1" using assms by (intro int_add_eq) simp_all
  then show ?thesis using assms(3) by simp
qed

lemma QuantumAdder_first_gate_fails:
  assumes "0 \<le> a" "a \<le> 2147483647" "0 \<le> b" "b \<le> 2147483647" "0 \<le> c" "c \<le> 2147483647"
    and "0 < nb"
    and "a \<ge> getNumQubits st \<or> b \<ge> getNumQubits st \<or> c + 1 \<ge> getNumQubits st"
  shows "gate_loop (QuantumAdder_body a b c) [0..<nat nb] st = (Some (Thrown InvalidArgument), st)"
proof -
  have e: "int_add a 0 = a" "int_add b 0 = b" "int_add c 0 = c"
    using assms(1-6) by (simp_all add: int_add_def signed_take_bit_int_eq_self)
  have "c + 1 \<ge> getNumQubits st \<Longrightarrow> getNumQubits st \<le> int_add c 1 \<or> int_add c 1 < 0"
    using assms(5,6) by (rule int_add_one)
  then have "a \<ge> getNumQubits st \<or> b \<ge> getNumQubits st \<or> int_add c 1 \<ge> getNumQubits st
               \<or> int_add c 1 < 0"
    using assms(8) by blast
  then have "construct_apply (new_ToffoliGate a b (int_add c 1)) st
               = (Some (Thrown InvalidArgument), st)"
    by (rule toffoli_rejected)
  then have "QuantumAdder_body a b c 0 st = (Some (Thrown InvalidArgument), st)"
    by (simp add: QuantumAdder_body_def Let_def e and_then_def)
  then show ?thesis using assms(7) by (intro gate_loop_first_fails) simp_all
qed

lemma comparator_x_moves:
  "construct_apply (new_XGate 1) (basis_state 3 0) = (None, basis_state 3 2)"
proof -
  have "construct_apply (new_XGate 1) (basis_state 3 0)
          = (None, basis_state 3 (source_index (XGate 1) 0))"
    by (rule x_basis(1)) simp_all
  moreover have "source_index (XGate 1) 0 = 2" by code_simp
  ultimately show ?thesis by simp
qed

text \<open>
  Claim C10 as stated fails for the Adder and for the Comparator.
  \<^item> Adder with \<open>a_start = 0\<close>, \<open>b_start = 2\<close>, \<open>carry_start = 0\<close>, \<open>num_bits = 1\<close> on a
    3-qubit store: the extents pass the validation of \<open>apply\<close>; the first Toffoli(0, 2, 1)
    is applied and moves the basis state 5 to 7; the constructor of the second,
    Toffoli(0, 0, 1), then throws InvalidArgument.
  \<^item> Comparator with \<open>a_start = 0\<close>, \<open>b_start = 0\<close>, \<open>result_start = 1\<close>, \<open>num_bits = 1\<close> on
    a 3-qubit store: X(1) is applied and moves the basis state 0 to 2; the constructor of
    ControlledNot(0, 0) then throws InvalidArgument.
  \<^item> Comparator with \<open>a_start = INT_MAX\<close>, \<open>b_start = 0\<close>, \<open>result_start = 1\<close>,
    \<open>num_bits = 1\<close> on a 3-qubit store, three registers that do not overlap: the sum
    \<open>a_start + num_bits\<close> wraps around to \<open>INT_MIN\<close> and passes the validation; X(1) is
    applied; \<open>apply\<close> of ControlledNot(INT_MAX, 0) then throws InvalidArgument.
\<close>

theorem adder_failure_counterexample:
  "new_QuantumAdder 0 2 0 1 = Inr (0, 2, 0, 1) \<and> wf_state (basis_state 3 5) \<and>
   QuantumAdder_apply 0 2 0 1 (basis_state 3 5)
     = (Some (Thrown InvalidArgument), basis_state 3 7) \<and>
   amplitudes (basis_state 3 7) \<noteq> amplitudes (basis_state 3 5) \<and>
   new_QuantumComparator 0 0 1 1 (-1) = Inr (0, 0, 1, 1, -1) \<and> wf_state (basis_state 3 0) \<and>
   QuantumComparator_apply 0 0 1 1 (basis_state 3 0)
     = (Some (Thrown InvalidArgument), basis_state 3 2) \<and>
   new_QuantumComparator 2147483647 0 1 1 (-1) = Inr (2147483647, 0, 1, 1, -1) \<and>
   no_overlap 2147483647 1 0 1 \<and> no_overlap 2147483647 1 1 (1 + 1) \<and>
   no_overlap 0 1 1 (1 + 1) \<and>
   QuantumComparator_apply 2147483647 0 1 1 (basis_state 3 0)
     = (Some (Thrown InvalidArgument), basis_state 3 2) \<and>
   amplitudes (basis_state 3 2) \<noteq> amplitudes (basis_state 3 0)"
proof -
  have 1: "construct_apply (new_ToffoliGate 0 2 1) (basis_state 3 5)
             = (None, basis_state 3 (source_index (ToffoliGate 0 2 1) 5))"
    by (rule toffoli_basis(1)) simp_all
  have i: "source_index (ToffoliGate 0 2 1) 5 = 7"
    by code_simp
  have 1: "construct_apply (new_ToffoliGate 0 2 1) (basis_state 3 5) = (None, basis_state 3 7)"
    using 1 unfolding i .
  have 2: "construct_apply (new_ToffoliGate 0 0 1) st = (Some (Thrown InvalidArgument), st)" for st
    by (simp add: construct_apply_def new_ToffoliGate_def)
  have "QuantumAdder_body 0 2 0 0 (basis_state 3 5)
          = (Some (Thrown InvalidArgument), basis_state 3 7)"
    unfolding QuantumAdder_body_def Let_def
    by (simp add: and_then_def int_add_def 1 2)
  then have A: "QuantumAdder_apply 0 2 0 1 (basis_state 3 5)
     = (Some (Thrown InvalidArgument), basis_state 3 7)"
    by (simp add: QuantumAdder_apply_def getNumQubits_def basis_state_def and_then_def
        int_add_def)
  have 3: "construct_apply (new_CNOTGate 0 0) st = (Some (Thrown InvalidArgument), st)" for st
    by (simp add: construct_apply_def new_CNOTGate_def)
  have "QuantumComparator_body 0 0 1 0 (basis_state 3 2)
          = (Some (Thrown InvalidArgument), basis_state 3 2)"
    unfolding QuantumComparator_body_def Let_def
    by (simp add: and_then_def int_add_def 3)
  then have "and_then (construct_apply (new_XGate 1))
               (gate_loop (QuantumComparator_body 0 0 1) [0]) (basis_state 3 0)
          = (Some (Thrown InvalidArgument), basis_state 3 2)"
    by (simp add: and_then_def comparator_x_moves)
  then have B: "QuantumComparator_apply 0 0 1 1 (basis_state 3 0)
     = (Some (Thrown InvalidArgument), basis_state 3 2)"
    by (simp add: QuantumComparator_apply_def getNumQubits_def int_add_def)
       (simp add: basis_state_def)
  have 4: "construct_apply (new_CNOTGate 2147483647 0) (basis_state 3 2)
             = (Some (Thrown InvalidArgument), basis_state 3 2)"
    by (simp add: construct_apply_def new_CNOTGate_def CNOTGate_apply_def getNumQubits_def
        basis_state_def)
  have "QuantumComparator_body 2147483647 0 1 0 (basis_state 3 2)
          = (Some (Thrown InvalidArgument), basis_state 3 2)"
    unfolding QuantumComparator_body_def Let_def
    by (simp add: and_then_def int_add_def 4)
  then have "and_then (construct_apply (new_XGate 1))
               (gate_loop (QuantumComparator_body 2147483647 0 1) [0]) (basis_state 3 0)
          = (Some (Thrown InvalidArgument), basis_state 3 2)"
    by (simp add: and_then_def comparator_x_moves)
  then have C: "QuantumComparator_apply 2147483647 0 1 1 (basis_state 3 0)
     = (Some (Thrown InvalidArgument), basis_state 3 2)"
    by (simp add: QuantumComparator_apply_def getNumQubits_def int_add_def)
       (simp add: basis_state_def)
  have D: "amplitudes (basis_state 3 7) \<noteq> amplitudes (basis_state 3 5)"
    "amplitudes (basis_state 3 2) \<noteq> amplitudes (basis_state 3 0)"
    by (simp_all add: basis_state_def eval_nat_numeral)
  have E: "new_QuantumAdder 0 2 0 1 = Inr (0, 2, 0, 1)" "wf_state (basis_state 3 5)"
    "new_QuantumComparator 0 0 1 1 (-1) = Inr (0, 0, 1, 1, -1)" "wf_state (basis_state 3 0)"
    "new_QuantumComparator 2147483647 0 1 1 (-1) = Inr (2147483647, 0, 1, 1, -1)"
    "no_overlap 2147483647 1 0 1" "no_overlap 2147483647 1 1 (1 + 1)" "no_overlap 0 1 1 (1 + 1)"
    by (simp_all add: new_QuantumAdder_def new_QuantumComparator_def wf_state_def
        basis_state_def no_overlap_def)
  show ?thesis using A B C D E by blast
qed

text \<open>
  Claim C10, amended. For each of the seven primitives, whenever \<open>apply\<close> raises
  InvalidArgument the store is exactly as before the call. The Adder and the Comparator
  validate the three register extents, with the sums taken in \<open>int\<close>, before their first
  sub-gate, and leave the store as it was when that validation fails. For an Adder whose
  registers do not overlap (its arguments being \<open>int\<close> values, at most \<open>INT_MAX\<close>), and for
  a Comparator whose registers do not overlap and whose extents \<open>start + num_bits\<close>
  (\<open>+ 1\<close> for the result chain) do not exceed \<open>INT_MAX\<close>, the store is exactly as before the
  call whenever \<open>apply\<close> fails.
\<close>

theorem failure_leaves_store:
  "(apply_gate g st = (Some (Thrown InvalidArgument), st') \<longrightarrow> st' = st) \<and>
   (int_add a nb > getNumQubits st \<or> int_add b nb > getNumQubits st
      \<or> int_add (int_add c nb) 1 > getNumQubits st \<longrightarrow>
      QuantumAdder_apply a b c nb st = (Some (Thrown InvalidArgument), st) \<and>
      QuantumComparator_apply a b c nb st = (Some (Thrown InvalidArgument), st)) \<and>
   (wf_state st \<and> no_overlap a nb b nb \<and> no_overlap a nb c (nb + 1) \<and>
    no_overlap b nb c (nb + 1) \<longrightarrow>
      (new_QuantumAdder a b c nb = Inr (a, b, c, nb) \<and>
       a \<le> 2147483647 \<and> b \<le> 2147483647 \<and> c \<le> 2147483647 \<and> nb \<le> 2147483647 \<and>
       QuantumAdder_apply a b c nb st = (Some f, st') \<longrightarrow> st' = st) \<and>
      (new_QuantumComparator a b c nb anc = Inr (a, b, c, nb, anc) \<and>
       a + nb \<le> 2147483647 \<and> b + nb \<le> 2147483647 \<and> c + nb + 1 \<le> 2147483647 \<and>
       QuantumComparator_apply a b c nb st = (Some f, st') \<longrightarrow> st' = st))"
proof (intro conjI impI)
  assume "apply_gate g st = (Some (Thrown InvalidArgument), st')"
  then show "st' = st" by (rule primitive_failure_unchanged)
next
  assume "int_add a nb > getNumQubits st \<or> int_add b nb > getNumQubits st
      \<or> int_add (int_add c nb) 1 > getNumQubits st"
  then show "QuantumAdder_apply a b c nb st = (Some (Thrown InvalidArgument), st)"
    "QuantumComparator_apply a b c nb st = (Some (Thrown InvalidArgument), st)"
    by (auto simp: QuantumAdder_apply_def QuantumComparator_apply_def Let_def)
next
  assume h: "wf_state st \<and> no_overlap a nb b nb \<and> no_overlap a nb c (nb + 1) \<and>
    no_overlap b nb c (nb + 1)"
    and r: "new_QuantumAdder a b c nb = Inr (a, b, c, nb) \<and>
       a \<le> 2147483647 \<and> b \<le> 2147483647 \<and> c \<le> 2147483647 \<and> nb \<le> 2147483647 \<and>
       QuantumAdder_apply a b c nb st = (Some f, st')"
  have pos: "0 \<le> a" "0 \<le> b" "0 \<le> c" "0 < nb"
    using r by (auto simp: new_QuantumAdder_def split: if_splits)
  have n30: "getNumQubits st \<le> 30" using h by (simp add: wf_state_def getNumQubits_def)
  show "st' = st"
  proof (cases "int_add a nb > getNumQubits st \<or> int_add b nb > getNumQubits st
                  \<or> int_add (int_add c nb) 1 > getNumQubits st")
    case True
    then show ?thesis using r by (auto simp: QuantumAdder_apply_def Let_def)
  next
    case False
    then have run: "QuantumAdder_apply a b c nb st
                      = gate_loop (QuantumAdder_body a b c) [0..<nat nb] st"
      by (auto simp: QuantumAdder_apply_def Let_def)
    show ?thesis
    proof (cases "a \<ge> getNumQubits st \<or> b \<ge> getNumQubits st \<or> c + 1 \<ge> getNumQubits st")
      case True
      have "gate_loop (QuantumAdder_body a b c) [0..<nat nb] st
              = (Some (Thrown InvalidArgument), st)"
        using pos(1) _ pos(2) _ pos(3) _ pos(4) True
        by (rule QuantumAdder_first_gate_fails) (use r in simp_all)
      then show ?thesis using r run by simp
    next
      case small: False
      have "nb \<le> 30" using h small n30 pos unfolding no_overlap_def by linarith
      then have e: "int_add a nb = a + nb" "int_add b nb = b + nb" "int_add c nb = c + nb"
        "int_add (c + nb) 1 = c + nb + 1"
        using pos small n30 by (auto intro!: int_add_eq)
      have "a + nb \<le> getNumQubits st \<and> b + nb \<le> getNumQubits st
                \<and> c + nb + 1 \<le> getNumQubits st"
        using False unfolding e by simp
      then have "fst (QuantumAdder_apply a b c nb st) = None"
        using h pos by (intro QuantumAdder_apply_returns) simp_all
      then show ?thesis using r by simp
    qed
  qed
next
  assume h: "wf_state st \<and> no_overlap a nb b nb \<and> no_overlap a nb c (nb + 1) \<and>
    no_overlap b nb c (nb + 1)"
    and r: "new_QuantumComparator a b c nb anc = Inr (a, b, c, nb, anc) \<and>
       a + nb \<le> 2147483647 \<and> b + nb \<le> 2147483647 \<and> c + nb + 1 \<le> 2147483647 \<and>
       QuantumComparator_apply a b c nb st = (Some f, st')"
  have pos: "0 \<le> a" "0 \<le> b" "0 \<le> c" "0 < nb"
    using r by (auto simp: new_QuantumComparator_def split: if_splits)
  have e: "int_add a nb = a + nb" "int_add b nb = b + nb" "int_add c nb = c + nb"
    "int_add (c + nb) 1 = c + nb + 1"
    using pos r by (auto intro!: int_add_eq)
  show "st' = st"
  proof (cases "a + nb \<le> getNumQubits st \<and> b + nb \<le> getNumQubits st
                \<and> c + nb + 1 \<le> getNumQubits st")
    case True
    then have "fst (QuantumComparator_apply a b c nb st) = None"
      using h pos by (intro QuantumComparator_apply_returns) simp_all
    then show ?thesis using r by simp
  next
    case False
    then show ?thesis using r by (auto simp: QuantumComparator_apply_def Let_def e)
  qed
qed

theorem failure_leaves_store_witness:
  "apply_gate (CNOTGate 0 5) (basis_state 2 1) = (Some (Thrown InvalidArgument), basis_state 2 1) \<and>
   (int_add 0 1 > getNumQubits (basis_state 2 1) \<or> int_add 1 1 > getNumQubits (basis_state 2 1)
      \<or> int_add (int_add 2 1) 1 > getNumQubits (basis_state 2 1)) \<and>
   wf_state (basis_state 2 1) \<and> no_overlap 0 1 1 1 \<and> no_overlap 0 1 2 (1 + 1) \<and>
   no_overlap 1 1 2 (1 + 1) \<and>
   new_QuantumAdder 0 1 2 1 = Inr (0, 1, 2, 1) \<and>
   (0::int) \<le> 2147483647 \<and> (1::int) \<le> 2147483647 \<and> (2::int) \<le> 2147483647 \<and>
   QuantumAdder_apply 0 1 2 1 (basis_state 2 1) = (Some (Thrown InvalidArgument), basis_state 2 1) \<and>
   new_QuantumComparator 0 1 2 1 (-1) = Inr (0, 1, 2, 1, -1) \<and>
   (0::int) + 1 \<le> 2147483647 \<and> (1::int) + 1 \<le> 2147483647 \<and> (2::int) + 1 + 1 \<le> 2147483647 \<and>
   QuantumComparator_apply 0 1 2 1 (basis_state 2 1)
     = (Some (Thrown InvalidArgument), basis_state 2 1)"
proof -
  have g: "apply_gate (CNOTGate 0 5) (basis_state 2 1)
             = (Some (Thrown InvalidArgument), basis_state 2 1)"
    by (simp add: CNOTGate_apply_def getNumQubits_def basis_state_def)
  have e: "int_add 0 1 > getNumQubits (basis_state 2 1) \<or> int_add 1 1 > getNumQubits (basis_state 2 1)
      \<or> int_add (int_add 2 1) 1 > getNumQubits (basis_state 2 1)"
    by (simp add: getNumQubits_def basis_state_def int_add_def)
  have h: "wf_state (basis_state 2 1) \<and> no_overlap 0 1 1 1 \<and> no_overlap 0 1 2 (1 + 1) \<and>
   no_overlap 1 1 2 (1 + 1)"
    by (simp add: wf_state_def basis_state_def no_overlap_def)
  have c: "new_QuantumAdder 0 1 2 1 = Inr (0, 1, 2, 1)"
    "new_QuantumComparator 0 1 2 1 (-1) = Inr (0, 1, 2, 1, -1)"
    by (simp_all add: new_QuantumAdder_def new_QuantumComparator_def)
  note t = failure_leaves_store [where g = "CNOTGate 0 5" and st = "basis_state 2 1"
      and st' = "basis_state 2 1" and a = 0 and b = 1 and c = 2 and nb = 1 and anc = "-1"
      and f = "Thrown InvalidArgument"]
  have r: "(0::int) \<le> 2147483647" "(1::int) \<le> 2147483647" "(2::int) \<le> 2147483647"
    "(0::int) + 1 \<le> 2147483647" "(1::int) + 1 \<le> 2147483647"
    "(2::int) + 1 + 1 \<le> 2147483647"
    by simp_all
  show ?thesis using t g e h c r by blast
qed

section \<open>The orchestrator on base 2, modulus 5, one control qubit\<close>

lemma upt_16: "[0..<16] = [0, 1, 2, 3, 4, 5, 6, 7, 8, 9, 10, 11, 12, 13, 14, 15]"
  by code_simp

lemma hadamard_pairs_16:
  "map (\<lambda>k. (bit k 0, unset_bit 0 k, set_bit 0 k))
     [0, 1, 2, 3, 4, 5, 6, 7, 8, 9, 10, 11, 12, 13, 14, 15 :: nat]
   = [(False, 0, 1), (True, 0, 1), (False, 2, 3), (True, 2, 3), (False, 4, 5), (True, 4, 5),
      (False, 6, 7), (True, 6, 7), (False, 8, 9), (True, 8, 9), (False, 10, 11),
      (True, 10, 11), (False, 12, 13), (True, 12, 13), (False, 14, 15), (True, 14, 15)]"
  by code_simp

lemma hadamard_amps_start:
  "hadamard_amps 16 0 [0, 0, 1, 0, 0, 0, 0, 0, 0, 0, 0, 0, 0, 0, 0, 0]
     = [0, 0, INV_SQRT2, INV_SQRT2, 0, 0, 0, 0, 0, 0, 0, 0, 0, 0, 0, 0]"
  using hadamard_pairs_16 unfolding hadamard_amps_def upt_16 by simp

lemma modexp_start:
  "QuantumState_new 4
     = Inr \<lparr>amplitudes = [1, 0, 0, 0, 0, 0, 0, 0, 0, 0, 0, 0, 0, 0, 0, 0],
            num_qubits = 4, state_size = 16\<rparr>"
  "setAmplitude 0 0 \<lparr>amplitudes = [1, 0, 0, 0, 0, 0, 0, 0, 0, 0, 0, 0, 0, 0, 0, 0],
                      num_qubits = 4, state_size = 16\<rparr>
     = (None, \<lparr>amplitudes = [0, 0, 0, 0, 0, 0, 0, 0, 0, 0, 0, 0, 0, 0, 0, 0],
                num_qubits = 4, state_size = 16\<rparr>)"
  "setAmplitude 2 1
       \<lparr>amplitudes = [0, 0, 0, 0, 0, 0, 0, 0, 0, 0, 0, 0, 0, 0, 0, 0],
        num_qubits = 4, state_size = 16\<rparr>
     = (None, \<lparr>amplitudes = [0, 0, 1, 0, 0, 0, 0, 0, 0, 0, 0, 0, 0, 0, 0, 0],
                num_qubits = 4, state_size = 16\<rparr>)"
  by code_simp+

lemma modexp_hadamard:
  "construct_apply (new_HadamardGate (int 0))
       \<lparr>amplitudes = [0, 0, 1, 0, 0, 0, 0, 0, 0, 0, 0, 0, 0, 0, 0, 0],
        num_qubits = 4, state_size = 16\<rparr>
     = (None, \<lparr>amplitudes = [0, 0, INV_SQRT2, INV_SQRT2, 0, 0, 0, 0, 0, 0, 0, 0, 0, 0, 0, 0],
                num_qubits = 4, state_size = 16\<rparr>)"
proof -
  let ?st = "\<lparr>amplitudes = [0, 0, 1, 0, 0, 0, 0, 0, 0, 0, 0, 0, 0, 0, 0, 0 :: complex],
        num_qubits = 4, state_size = 16\<rparr>"
  have wf: "wf_state ?st" by (simp add: wf_state_def)
  have "HadamardGate_apply 0 ?st
          = (None, ?st\<lparr>amplitudes := hadamard_amps (state_size ?st) (nat 0) (amplitudes ?st)\<rparr>)"
    using wf by (rule Hadamard_apply_amps) simp_all
  then show ?thesis
    by (simp add: construct_apply_def new_HadamardGate_def hadamard_amps_start)
qed

lemma modexp_multiply:
  "ControlledModMultGate_apply 0 1 3 2 5
       \<lparr>amplitudes = [0, 0, c, c, 0, 0, 0, 0, 0, 0, 0, 0, 0, 0, 0, 0],
        num_qubits = 4, state_size = 16\<rparr>
     = (None, \<lparr>amplitudes = [0, 0, c, 0, 0, 0, 0, 0, 0, 0, 0, 0, 0, 0, 0, 0],
                num_qubits = 4, state_size = 16\<rparr>)"
  by code_simp

lemma modexp_numbers:
  "count_bits (5 - 1) 0 = 3" "int_add 1 3 = 4" "powers_loop 5 (2 mod 5) (nat 1) = [2]"
  "new_ControlledModMultGate 0 1 3 2 5 = Inr (ControlledModMultGate 0 1 3 2 5)"
  by code_simp+

lemma modexp_multiply_gate:
  "construct_apply (new_ControlledModMultGate 0 1 3 2 5)
       \<lparr>amplitudes = [0, 0, c, c, 0, 0, 0, 0, 0, 0, 0, 0, 0, 0, 0, 0],
        num_qubits = 4, state_size = 16\<rparr>
     = (None, \<lparr>amplitudes = [0, 0, c, 0, 0, 0, 0, 0, 0, 0, 0, 0, 0, 0, 0, 0],
                num_qubits = 4, state_size = 16\<rparr>)"
  by (simp add: construct_apply_def modexp_numbers modexp_multiply)

text \<open>
  Claim C3 at base 2, modulus 5 and one control qubit. \<open>main\<close> accepts the input
  (\<open>gcd(2, 5) = 1\<close>) and builds a store of 1 + 3 qubits. The claim asks for probability
  \<open>1/2\<close> at control 1, target \<open>2 ^ 1 mod 5 = 2\<close>, which is index 5. The circuit leaves the
  amplitude \<open>INV_SQRT2\<close> at index 2 (control 0, target 1) and 0 everywhere else: the
  probability at index 5 is 0, the total probability is \<open>INV_SQRT2\<^sup>2\<close>, about \<open>1/2\<close>, and
  the store is not normalized. The multiplication copies index 3 (target 1) to index 5;
  later it copies index 7 (target 3, \<open>2 * 3 mod 5 = 1\<close>) to index 3 and index 13
  (target 6, \<open>2 * 6 mod 5 = 2\<close>) to index 5, both with amplitude 0.
\<close>

theorem modexp_base_2_modulus_5:
  "input_accepted 2 5 1 \<and>
   modexp_circuit 2 5 1
     = Inr \<lparr>amplitudes = [0, 0, INV_SQRT2, 0, 0, 0, 0, 0, 0, 0, 0, 0, 0, 0, 0, 0],
            num_qubits = 4, state_size = 16\<rparr> \<and>
   getProbability \<lparr>amplitudes = [0, 0, INV_SQRT2, 0, 0, 0, 0, 0, 0, 0, 0, 0, 0, 0, 0, 0],
                   num_qubits = 4, state_size = 16\<rparr> 5 = Inr 0 \<and>
   total_probability \<lparr>amplitudes = [0, 0, INV_SQRT2, 0, 0, 0, 0, 0, 0, 0, 0, 0, 0, 0, 0, 0],
                      num_qubits = 4, state_size = 16\<rparr>
     = Inr ((6369051672525773 / 2 ^ 53)\<^sup>2) \<and>
   isNormalized \<lparr>amplitudes = [0, 0, INV_SQRT2, 0, 0, 0, 0, 0, 0, 0, 0, 0, 0, 0, 0, 0],
                 num_qubits = 4, state_size = 16\<rparr> = Inr False"
proof -
  let ?st = "\<lparr>amplitudes = [0, 0, INV_SQRT2, 0, 0, 0, 0, 0, 0, 0, 0, 0, 0, 0, 0, 0],
            num_qubits = 4, state_size = 16\<rparr>"
  have 1: "input_accepted 2 5 1" by code_simp
  have 2: "modexp_circuit 2 5 1 = Inr ?st"
    unfolding modexp_circuit_def Let_def modexp_numbers
    by (simp add: modexp_start and_then_def modexp_numbers(1,2,3) modexp_hadamard [simplified]
        modexp_multiply_gate)
  have 3: "getProbability ?st 5 = Inr 0"
    by (simp add: getProbability_def vec_get_def)
  have 4: "total_probability ?st = Inr ((6369051672525773 / 2 ^ 53)\<^sup>2)"
    by (simp add: total_probability_def upt_16 getProbability_def vec_get_def INV_SQRT2_def)
  have 5: "isNormalized ?st = Inr False"
    unfolding isNormalized_def 4 by (simp add: power2_eq_square)
  show ?thesis using 1 2 3 4 5 by blast
qed

end
